theory Spec2Isabelle
  imports Main "HOL-Library.AList"
begin

section \<open>Data model of \<^verbatim>\<open>app/src/ui/changes/changes-list.tsx\<close>\<close>

text \<open>
  Modelled from the spec: \<^verbatim>\<open>models/status\<close> is not part of the sources at hand.
  \<^verbatim>\<open>AppFileStatusKind\<close> lists the status variants of the data model; an
  \<^verbatim>\<open>AppFileStatus\<close> object has a \<^verbatim>\<open>kind\<close> and further data, kept opaque as
  \<open>detail\<close>, so that two status objects of the same kind can be told apart.
  \<^verbatim>\<open>FileType\<close> has the four members the component names.
\<close>

datatype AppFileStatusKind = New | Modified | Deleted | Renamed | Copied | Untracked | Conflicted

record AppFileStatus =
  kind :: AppFileStatusKind
  detail :: string

datatype FileType = NormalFile | SketchFile | PageFile | LayerFile

text \<open>
  \<^verbatim>\<open>WorkingDirectoryFileChange & { index: number; shown: boolean }\<close>: the fields of a
  change record that the component reads or writes.  \<^verbatim>\<open>parts\<close> is an array or
  undefined; of \<^verbatim>\<open>sketchFile\<close> only the truthiness is used.  \<^verbatim>\<open>shown\<close> and
  \<^verbatim>\<open>index\<close> are written by \<^verbatim>\<open>getFileList\<close> and never read by it.  Both node
  types of the source use the field names \<^verbatim>\<open>id\<close>, \<^verbatim>\<open>parts\<close>, \<^verbatim>\<open>status\<close>,
  \<^verbatim>\<open>shown\<close>, \<^verbatim>\<open>index\<close>; here they carry the prefix \<open>f_\<close> (change record) or
  \<open>p_\<close> (synthesized part).
\<close>

record WorkingDirectoryFileChange =
  f_id :: string
  f_path :: string
  f_parts :: "string list option"
  f_sketchFile :: bool
  f_status :: AppFileStatus
  f_shown :: bool
  f_index :: nat

text \<open>\<^verbatim>\<open>TFakeSketchPartChange\<close>; the constant field \<^verbatim>\<open>fakePart: true\<close> is the
  constructor \<open>FakePart\<close> of the union below.\<close>

record TFakeSketchPartChange =
  p_opened :: bool
  p_shown :: bool
  p_index :: nat
  p_type :: FileType
  p_id :: string
  p_parts :: "string list"
  p_name :: string
  p_status :: "AppFileStatus option"

datatype TFileOrSketchPartChange =
    FileChange WorkingDirectoryFileChange
  | FakePart TFakeSketchPartChange

text \<open>
  An object used as a dictionary \<^verbatim>\<open>{ [id: string]: ... }\<close> is an association list
  in insertion order: assigning to a key that is present replaces the value in place,
  assigning to a new key appends (\<open>AList.update\<close>).  Keys are taken not to be names
  inherited from \<^verbatim>\<open>Object.prototype\<close>.
\<close>

type_synonym node_table = "(string \<times> TFileOrSketchPartChange) list"

fun node_shown :: "TFileOrSketchPartChange \<Rightarrow> bool" where
  "node_shown (FileChange f) = f_shown f"
| "node_shown (FakePart p) = p_shown p"

fun node_index :: "TFileOrSketchPartChange \<Rightarrow> nat" where
  "node_index (FileChange f) = f_index f"
| "node_index (FakePart p) = p_index p"

fun node_id :: "TFileOrSketchPartChange \<Rightarrow> string" where
  "node_id (FileChange f) = f_id f"
| "node_id (FakePart p) = p_id p"

section \<open>\<^verbatim>\<open>getFileList\<close>\<close>

text \<open>\<^verbatim>\<open>Array.prototype.join('/')\<close>.\<close>

fun join :: "string list \<Rightarrow> string" where
  "join [] = []"
| "join [x] = x"
| "join (x # y # ys) = x @ ''/'' @ join (y # ys)"

text \<open>The variables the closures of \<^verbatim>\<open>getFileList\<close> share: the accumulator
  \<^verbatim>\<open>prev\<close> (\<^verbatim>\<open>acc\<close>), \<^verbatim>\<open>fakePartsAcc\<close>, \<^verbatim>\<open>parentPartChange\<close> and the counter
  \<^verbatim>\<open>index\<close>.\<close>

record reduce_state =
  prev :: node_table
  fakePartsAcc :: "(string \<times> TFakeSketchPartChange) list"
  parentPartChange :: "TFakeSketchPartChange option"
  index :: nat

text \<open>\<^verbatim>\<open>oldSketchPart && oldSketchPart.fakePart ? oldSketchPart.opened : i === 0\<close>
  with \<^verbatim>\<open>oldSketchPart = oldList && oldList[id]\<close>.\<close>

definition opened_of :: "node_table option \<Rightarrow> string \<Rightarrow> nat \<Rightarrow> bool" where
  "opened_of oldList ident i =
     (case oldList of
        None \<Rightarrow> i = 0
      | Some ol \<Rightarrow>
          (case map_of ol ident of
             Some (FakePart oldSketchPart) \<Rightarrow> p_opened oldSketchPart
           | _ \<Rightarrow> i = 0))"

text \<open>
  The callback of \<^verbatim>\<open>f.parts.forEach((part, i, arr) => ...)\<close>, lines 163 to 216.
  \<open>previousParts\<close> is \<^verbatim>\<open>previousFile.parts || []\<close>; reading it at an index beyond its
  length gives \<^verbatim>\<open>undefined\<close>, which is never equal to a string.

  The part object stored under \<^verbatim>\<open>prev[id]\<close> is the one stored under
  \<^verbatim>\<open>fakePartsAcc[id]\<close>; the write \<^verbatim>\<open>correspondingPart.status = f.status\<close> is made on
  the entry of \<open>prev\<close>, the only place where a status is read afterwards.
\<close>

definition forEach_body ::
  "node_table option \<Rightarrow> WorkingDirectoryFileChange \<Rightarrow> string list \<Rightarrow> string list \<Rightarrow>
   reduce_state \<Rightarrow> nat \<Rightarrow> reduce_state" where
  "forEach_body oldList f previousParts arr s0 i =
     (let part = arr ! i;
          s = (if i \<le> 1 then s0\<lparr>parentPartChange := None\<rparr> else s0);
          parts = take i arr;
          parentId = join parts;
          ident = (if parentId \<noteq> [] then parentId @ ''/'' @ part else part);
          conflicted = (kind (f_status f) = Conflicted)
      in
        if i < length previousParts \<and> part = previousParts ! i then
          (if conflicted then
             (case map_of (prev s) ident of
                Some (FakePart correspondingPart) \<Rightarrow>
                  if p_status correspondingPart = None
                  then s\<lparr>prev := AList.update ident
                         (FakePart (correspondingPart\<lparr>p_status := Some (f_status f)\<rparr>)) (prev s)\<rparr>
                  else s
              | _ \<Rightarrow> s)
           else s)
        else
          (let opened = opened_of oldList ident i;
               parent =
                 (case parentPartChange s of
                    None \<Rightarrow> map_of (fakePartsAcc s) parentId
                  | Some p \<Rightarrow>
                      if i > 1 \<and> p_id p \<noteq> parentId
                      then map_of (fakePartsAcc s) parentId
                      else Some p);
               partChange =
                 \<lparr> p_opened = opened,
                   p_shown = (opened \<or> (case parent of None \<Rightarrow> True | Some p \<Rightarrow> p_opened p)),
                   p_index = index s,
                   p_type = (if i = 0 then SketchFile else if i = 1 then PageFile else LayerFile),
                   p_id = ident,
                   p_parts = parts,
                   p_name = part,
                   p_status = (if conflicted then Some (f_status f) else None) \<rparr>
           in s\<lparr> prev := AList.update ident (FakePart partChange) (prev s),
                 fakePartsAcc := AList.update ident partChange (fakePartsAcc s),
                 parentPartChange := Some partChange,
                 index := index s + 1 \<rparr>))"

definition forEach_parts ::
  "node_table option \<Rightarrow> WorkingDirectoryFileChange \<Rightarrow> string list \<Rightarrow> string list \<Rightarrow>
   reduce_state \<Rightarrow> reduce_state" where
  "forEach_parts oldList f previousParts arr s =
     fold (\<lambda>i s'. forEach_body oldList f previousParts arr s' i) [0..<length arr] s"

text \<open>
  The callback of \<^verbatim>\<open>files.reduce((prev, f, i) => ...)\<close>, lines 148 to 237.  It returns
  the shared variables and the change record \<open>f\<close> as the assignments to \<^verbatim>\<open>f.shown\<close>
  and \<^verbatim>\<open>f.index\<close> leave it.  \<open>previousFile\<close> is \<^verbatim>\<open>files[i - 1]\<close>, \<open>None\<close> for the
  \<^verbatim>\<open>{}\<close> taken at \<^verbatim>\<open>i = 0\<close>.
\<close>

definition store_file ::
  "WorkingDirectoryFileChange \<Rightarrow> bool \<Rightarrow> reduce_state \<Rightarrow>
   reduce_state \<times> WorkingDirectoryFileChange" where
  "store_file f sh s =
     (let f' = f\<lparr>f_shown := sh, f_index := index s\<rparr>
      in (s\<lparr>prev := AList.update (f_id f') (FileChange f') (prev s), index := index s + 1\<rparr>, f'))"

definition reduce_body ::
  "node_table option \<Rightarrow> WorkingDirectoryFileChange option \<Rightarrow> reduce_state \<Rightarrow>
   WorkingDirectoryFileChange \<Rightarrow> reduce_state \<times> WorkingDirectoryFileChange" where
  "reduce_body oldList previousFile s f =
     (case f_parts f of
        None \<Rightarrow> store_file f True s
      | Some parts \<Rightarrow>
          if \<not> f_sketchFile f then store_file f True s
          else if length parts = 1 \<and> parts ! 0 @ ''/'' = f_path f then store_file f True s
          else
            (let previousParts =
                   (case previousFile of
                      None \<Rightarrow> []
                    | Some pf \<Rightarrow> (case f_parts pf of None \<Rightarrow> [] | Some ps \<Rightarrow> ps));
                 s1 = forEach_parts oldList f previousParts parts s;
                 parentId = join parts;
                 s2 =
                   (if parentPartChange s1 = None \<or>
                       (length parts > 1 \<and> p_id (the (parentPartChange s1)) \<noteq> parentId)
                    then s1\<lparr>parentPartChange := map_of (fakePartsAcc s1) parentId\<rparr>
                    else if length parts \<le> 1 then s1\<lparr>parentPartChange := None\<rparr>
                    else s1);
                 sh = ((case parentPartChange s2 of None \<Rightarrow> False | Some p \<Rightarrow> p_opened p)
                       \<or> length parts = 0)
             in store_file f sh s2))"

fun reduce_files ::
  "node_table option \<Rightarrow> WorkingDirectoryFileChange option \<Rightarrow> reduce_state \<Rightarrow>
   WorkingDirectoryFileChange list \<Rightarrow> reduce_state \<times> WorkingDirectoryFileChange list" where
  "reduce_files oldList previousFile s [] = (s, [])"
| "reduce_files oldList previousFile s (f # fs) =
     (case reduce_body oldList previousFile s f of
        (s', f') \<Rightarrow>
          (case reduce_files oldList (Some f') s' fs of
             (s'', fs') \<Rightarrow> (s'', f' # fs')))"

definition init_state :: reduce_state where
  "init_state = \<lparr> prev = [], fakePartsAcc = [], parentPartChange = None, index = 0 \<rparr>"

text \<open>\<open>getFileList\<close> is the table the function returns; \<open>getFileList_files\<close> is the
  input array after the call, that is the change records as the pass has left them,
  for an array of pairwise different record objects.  (Which objects a call writes when
  records are shared is the matter of the section on the store of objects.)\<close>

definition getFileList ::
  "WorkingDirectoryFileChange list \<Rightarrow> node_table option \<Rightarrow> node_table" where
  "getFileList files oldList = prev (fst (reduce_files oldList None init_state files))"

definition getFileList_files ::
  "WorkingDirectoryFileChange list \<Rightarrow> node_table option \<Rightarrow> WorkingDirectoryFileChange list" where
  "getFileList_files files oldList = snd (reduce_files oldList None init_state files)"

section \<open>\<^verbatim>\<open>getOpenedFilesList\<close>\<close>

text \<open>
  \<^verbatim>\<open>Object.values(files).filter(f => f.shown)\<close>, then sorted with the comparator
  \<^verbatim>\<open>a.index > b.index ? 1 : -1\<close>.  On nodes with pairwise different \<^verbatim>\<open>index\<close> the
  comparator is a strict order and the result is the ascending arrangement, which is
  what \<open>sort_key\<close> computes.
\<close>

definition getOpenedFilesList :: "node_table \<Rightarrow> TFileOrSketchPartChange list" where
  "getOpenedFilesList files = sort_key node_index (filter node_shown (map snd files))"

section \<open>\<^verbatim>\<open>getFileList\<close> on a store of objects\<close>

text \<open>
  The change records and the synthesized parts are objects, and the arrays and tables
  of the program hold references to them.  To say which objects a call writes, the
  function is given a second time with the objects in a store: \<open>file_at\<close> holds the
  change records and \<open>part_at\<close> the synthesized parts, each under an address;
  \<open>next_part\<close> is the first address at which no part object has been made, and the
  object literal of lines 192 to 207 makes its object there.  An address that holds no
  object of the program is never read.  The input array is a list of addresses of
  change records, and a table maps an identifier to a reference to a change record or
  to a part, the field \<^verbatim>\<open>fakePart\<close> telling the two apart.
\<close>

type_synonym addr = nat

datatype node_ref = FileRef addr | PartRef addr

record store =
  file_at :: "addr \<Rightarrow> WorkingDirectoryFileChange"
  part_at :: "addr \<Rightarrow> TFakeSketchPartChange"
  next_part :: addr

type_synonym ref_table = "(string \<times> node_ref) list"

text \<open>The variables the closures share, with references in place of objects, and
  the store.\<close>

record heap_state =
  h_prev :: ref_table
  h_fakePartsAcc :: "(string \<times> addr) list"
  h_parentPartChange :: "addr option"
  h_index :: nat
  h_store :: store

text \<open>\<^verbatim>\<open>oldSketchPart && oldSketchPart.fakePart ? oldSketchPart.opened : i === 0\<close>, the
  flag read from the object in the store.\<close>

definition opened_of_h :: "store \<Rightarrow> ref_table option \<Rightarrow> string \<Rightarrow> nat \<Rightarrow> bool" where
  "opened_of_h st oldList ident i =
     (case oldList of
        None \<Rightarrow> i = 0
      | Some ol \<Rightarrow>
          (case map_of ol ident of
             Some (PartRef oldSketchPart) \<Rightarrow> p_opened (part_at st oldSketchPart)
           | _ \<Rightarrow> i = 0))"

text \<open>The callback of \<^verbatim>\<open>forEach\<close>, lines 163 to 216, for the change record at the
  address \<open>fa\<close>.  The write \<^verbatim>\<open>correspondingPart.status = f.status\<close> goes to the part
  object that \<^verbatim>\<open>prev[id]\<close> refers to; \<^verbatim>\<open>prev[id]\<close>, \<^verbatim>\<open>fakePartsAcc[id]\<close> and
  \<^verbatim>\<open>parentPartChange\<close> are set to the one new object.\<close>

definition forEach_body_h ::
  "ref_table option \<Rightarrow> addr \<Rightarrow> string list \<Rightarrow> string list \<Rightarrow> heap_state \<Rightarrow> nat \<Rightarrow> heap_state" where
  "forEach_body_h oldList fa previousParts arr s0 i =
     (let part = arr ! i;
          s = (if i \<le> 1 then s0\<lparr>h_parentPartChange := None\<rparr> else s0);
          st = h_store s;
          f = file_at st fa;
          parts = take i arr;
          parentId = join parts;
          ident = (if parentId \<noteq> [] then parentId @ ''/'' @ part else part);
          conflicted = (kind (f_status f) = Conflicted)
      in
        if i < length previousParts \<and> part = previousParts ! i then
          (if conflicted then
             (case map_of (h_prev s) ident of
                Some (PartRef correspondingPart) \<Rightarrow>
                  if p_status (part_at st correspondingPart) = None
                  then s\<lparr>h_store := st\<lparr>part_at := (part_at st)
                         (correspondingPart := (part_at st correspondingPart)\<lparr>p_status := Some (f_status f)\<rparr>)\<rparr>\<rparr>
                  else s
              | _ \<Rightarrow> s)
           else s)
        else
          (let opened = opened_of_h st oldList ident i;
               parent =
                 (case h_parentPartChange s of
                    None \<Rightarrow> map_of (h_fakePartsAcc s) parentId
                  | Some p \<Rightarrow>
                      if i > 1 \<and> p_id (part_at st p) \<noteq> parentId
                      then map_of (h_fakePartsAcc s) parentId
                      else Some p);
               partChange =
                 \<lparr> p_opened = opened,
                   p_shown = (opened \<or> (case parent of None \<Rightarrow> True | Some p \<Rightarrow> p_opened (part_at st p))),
                   p_index = h_index s,
                   p_type = (if i = 0 then SketchFile else if i = 1 then PageFile else LayerFile),
                   p_id = ident,
                   p_parts = parts,
                   p_name = part,
                   p_status = (if conflicted then Some (f_status f) else None) \<rparr>;
               a = next_part st
           in s\<lparr> h_prev := AList.update ident (PartRef a) (h_prev s),
                 h_fakePartsAcc := AList.update ident a (h_fakePartsAcc s),
                 h_parentPartChange := Some a,
                 h_index := h_index s + 1,
                 h_store := st\<lparr>part_at := (part_at st)(a := partChange), next_part := Suc a\<rparr> \<rparr>))"

definition forEach_parts_h ::
  "ref_table option \<Rightarrow> addr \<Rightarrow> string list \<Rightarrow> string list \<Rightarrow> heap_state \<Rightarrow> heap_state" where
  "forEach_parts_h oldList fa previousParts arr s =
     fold (\<lambda>i s'. forEach_body_h oldList fa previousParts arr s' i) [0..<length arr] s"

text \<open>\<^verbatim>\<open>f.shown = ...; f.index = index; prev[f.id] = f; index += 1\<close>: the two writes go
  to the change record at \<open>fa\<close>, and the table refers to that record.\<close>

definition store_file_h :: "addr \<Rightarrow> bool \<Rightarrow> heap_state \<Rightarrow> heap_state" where
  "store_file_h fa sh s =
     (let st = h_store s;
          f' = (file_at st fa)\<lparr>f_shown := sh, f_index := h_index s\<rparr>
      in s\<lparr> h_store := st\<lparr>file_at := (file_at st)(fa := f')\<rparr>,
            h_prev := AList.update (f_id f') (FileRef fa) (h_prev s),
            h_index := h_index s + 1 \<rparr>)"

text \<open>The callback of \<^verbatim>\<open>reduce\<close>, lines 148 to 237; \<open>previousFile\<close> is the address
  \<^verbatim>\<open>files[i - 1]\<close>.\<close>

definition reduce_body_h ::
  "ref_table option \<Rightarrow> addr option \<Rightarrow> heap_state \<Rightarrow> addr \<Rightarrow> heap_state" where
  "reduce_body_h oldList previousFile s fa =
     (let f = file_at (h_store s) fa in
      case f_parts f of
        None \<Rightarrow> store_file_h fa True s
      | Some parts \<Rightarrow>
          if \<not> f_sketchFile f then store_file_h fa True s
          else if length parts = 1 \<and> parts ! 0 @ ''/'' = f_path f then store_file_h fa True s
          else
            (let previousParts =
                   (case previousFile of
                      None \<Rightarrow> []
                    | Some pa \<Rightarrow> (case f_parts (file_at (h_store s) pa) of None \<Rightarrow> [] | Some ps \<Rightarrow> ps));
                 s1 = forEach_parts_h oldList fa previousParts parts s;
                 parentId = join parts;
                 s2 =
                   (if h_parentPartChange s1 = None \<or>
                       (length parts > 1 \<and>
                        p_id (part_at (h_store s1) (the (h_parentPartChange s1))) \<noteq> parentId)
                    then s1\<lparr>h_parentPartChange := map_of (h_fakePartsAcc s1) parentId\<rparr>
                    else if length parts \<le> 1 then s1\<lparr>h_parentPartChange := None\<rparr>
                    else s1);
                 sh = ((case h_parentPartChange s2 of None \<Rightarrow> False
                        | Some p \<Rightarrow> p_opened (part_at (h_store s2) p))
                       \<or> length parts = 0)
             in store_file_h fa sh s2))"

fun reduce_files_h ::
  "ref_table option \<Rightarrow> addr option \<Rightarrow> heap_state \<Rightarrow> addr list \<Rightarrow> heap_state" where
  "reduce_files_h oldList previousFile s [] = s"
| "reduce_files_h oldList previousFile s (fa # fas) =
     reduce_files_h oldList (Some fa) (reduce_body_h oldList previousFile s fa) fas"

definition init_heap_state :: "store \<Rightarrow> heap_state" where
  "init_heap_state st =
     \<lparr> h_prev = [], h_fakePartsAcc = [], h_parentPartChange = None, h_index = 0, h_store = st \<rparr>"

text \<open>The table of references that the call returns, and the store after the call.\<close>

definition getFileList_h :: "store \<Rightarrow> addr list \<Rightarrow> ref_table option \<Rightarrow> ref_table \<times> store" where
  "getFileList_h st fas oldList =
     (let s = reduce_files_h oldList None (init_heap_state st) fas in (h_prev s, h_store s))"

section \<open>The component \<^verbatim>\<open>ChangesList\<close>\<close>

text \<open>The props and the state of the component that the modelled methods read or
  write: \<^verbatim>\<open>workingDirectory.files\<close> and the three selection identifiers of
  \<^verbatim>\<open>IChangesListProps\<close>, and \<^verbatim>\<open>IChangesState\<close>.\<close>

record IChangesListProps =
  workingDirectory_files :: "WorkingDirectoryFileChange list"
  selectedFileIDs :: "string list"
  selectedSketchFileID :: "string option"
  selectedSketchPartID :: "string option"

record IChangesState =
  files :: node_table
  visibleFileList :: "TFileOrSketchPartChange list"

record ChangesList =
  props :: IChangesListProps
  state :: IChangesState

text \<open>Modelled from the spec: \<^verbatim>\<open>arrayEquals\<close> of \<^verbatim>\<open>lib/equality\<close> is not part of the
  sources at hand; on the arrays of selected identifiers it holds when they are
  unchanged, element for element.\<close>

definition arrayEquals :: "string list \<Rightarrow> string list \<Rightarrow> bool" where
  "arrayEquals xs ys = (xs = ys)"

text \<open>The constructor, lines 255 to 264.  The props keep the change records as the
  pass has left them.\<close>

definition ChangesList_constructor :: "IChangesListProps \<Rightarrow> ChangesList" where
  "ChangesList_constructor p =
     (let fileList = getFileList (workingDirectory_files p) None
      in \<lparr> props = p\<lparr>workingDirectory_files := getFileList_files (workingDirectory_files p) None\<rparr>,
           state = \<lparr> files = fileList, visibleFileList = getOpenedFilesList fileList \<rparr> \<rparr>)"

text \<open>\<^verbatim>\<open>componentWillReceiveProps(nextProps)\<close>, lines 266 to 284: the component after the
  call, and \<open>nextProps\<close> with its change records as the call has left them.\<close>

definition componentWillReceiveProps ::
  "ChangesList \<Rightarrow> IChangesListProps \<Rightarrow> ChangesList \<times> IChangesListProps" where
  "componentWillReceiveProps this nextProps =
     (if \<not> arrayEquals (selectedFileIDs nextProps) (selectedFileIDs (props this)) \<or>
         selectedSketchFileID nextProps \<noteq> selectedSketchFileID (props this) \<or>
         selectedSketchPartID nextProps \<noteq> selectedSketchPartID (props this)
      then (this, nextProps)
      else
        (let fileList = getFileList (workingDirectory_files nextProps) (Some (files (state this)))
         in (this\<lparr>state := \<lparr> files = fileList, visibleFileList = getOpenedFilesList fileList \<rparr>\<rparr>,
             nextProps\<lparr>workingDirectory_files :=
               getFileList_files (workingDirectory_files nextProps) (Some (files (state this)))\<rparr>)))"

text \<open>
  The table is made as a plain object \<^verbatim>\<open>{}\<close>, so a read \<^verbatim>\<open>files[id]\<close> at a name that
  is not a key of the table falls through to \<^verbatim>\<open>Object.prototype\<close>.  These are the
  property names of \<^verbatim>\<open>Object.prototype\<close> in the language standard (with its annex for
  web browsers); each of them holds a function or an object that has no field
  \<^verbatim>\<open>fakePart\<close>.  At every other name that is not a key the read gives \<^verbatim>\<open>undefined\<close>.
\<close>

definition Object_prototype_names :: "string list" where
  "Object_prototype_names =
     [''constructor'', ''hasOwnProperty'', ''isPrototypeOf'', ''propertyIsEnumerable'',
      ''toLocaleString'', ''toString'', ''valueOf'', ''__proto__'',
      ''__defineGetter__'', ''__defineSetter__'', ''__lookupGetter__'', ''__lookupSetter__'']"

text \<open>\<^verbatim>\<open>onOpenChanged(id, opened)\<close>, lines 349 to 360.  Reading \<^verbatim>\<open>files[id].fakePart\<close>
  when \<^verbatim>\<open>files[id]\<close> is undefined throws a \<^verbatim>\<open>TypeError\<close>; when \<^verbatim>\<open>files[id]\<close> is a
  value inherited from \<^verbatim>\<open>Object.prototype\<close> the field is undefined and the method
  returns at line 352, as it does for a change record.\<close>

datatype js_error = TypeError

definition onOpenChanged :: "ChangesList \<Rightarrow> string \<Rightarrow> bool \<Rightarrow> js_error + ChangesList" where
  "onOpenChanged this ident opened =
     (case map_of (files (state this)) ident of
        None \<Rightarrow> if ident \<in> set Object_prototype_names then Inr this else Inl TypeError
      | Some (FileChange f) \<Rightarrow> Inr this
      | Some (FakePart p) \<Rightarrow>
          (let files' = AList.update ident (FakePart (p\<lparr>p_opened := opened\<rparr>)) (files (state this));
               newFiles = getFileList (workingDirectory_files (props this)) (Some files')
           in Inr \<lparr> props = (props this)\<lparr>workingDirectory_files :=
                       getFileList_files (workingDirectory_files (props this)) (Some files')\<rparr>,
                     state = \<lparr> files = newFiles, visibleFileList = getOpenedFilesList newFiles \<rparr> \<rparr>))"

section \<open>Vocabulary for the proofs\<close>

text \<open>The pieces of the \<^verbatim>\<open>forEach\<close> callback, named: the identifier of the part at
  position \<open>i\<close>, the test of the skip-if-unchanged rule, the reset of
  \<^verbatim>\<open>parentPartChange\<close> at \<open>i \<le> 1\<close>, the write of the conflict status, the parent the
  callback settles on, and the part object it builds.\<close>

definition part_ident :: "string list \<Rightarrow> nat \<Rightarrow> string" where
  "part_ident arr i =
     (if join (take i arr) \<noteq> [] then join (take i arr) @ ''/'' @ arr ! i else arr ! i)"

definition skips :: "string list \<Rightarrow> string list \<Rightarrow> nat \<Rightarrow> bool" where
  "skips previousParts arr i = (i < length previousParts \<and> arr ! i = previousParts ! i)"

definition reset_parent :: "nat \<Rightarrow> reduce_state \<Rightarrow> reduce_state" where
  "reset_parent i s = (if i \<le> 1 then s\<lparr>parentPartChange := None\<rparr> else s)"

definition attach_status :: "WorkingDirectoryFileChange \<Rightarrow> string \<Rightarrow> node_table \<Rightarrow> node_table" where
  "attach_status f k tbl =
     (if kind (f_status f) = Conflicted then
        (case map_of tbl k of
           Some (FakePart c) \<Rightarrow>
             if p_status c = None
             then AList.update k (FakePart (c\<lparr>p_status := Some (f_status f)\<rparr>)) tbl
             else tbl
         | _ \<Rightarrow> tbl)
      else tbl)"

definition parent_at :: "reduce_state \<Rightarrow> nat \<Rightarrow> string \<Rightarrow> TFakeSketchPartChange option" where
  "parent_at s i parentId =
     (case parentPartChange s of
        None \<Rightarrow> map_of (fakePartsAcc s) parentId
      | Some p \<Rightarrow> if i > 1 \<and> p_id p \<noteq> parentId then map_of (fakePartsAcc s) parentId else Some p)"

definition new_part ::
  "node_table option \<Rightarrow> WorkingDirectoryFileChange \<Rightarrow> string list \<Rightarrow> nat \<Rightarrow> reduce_state \<Rightarrow>
   TFakeSketchPartChange" where
  "new_part oldList f arr i s =
     \<lparr> p_opened = opened_of oldList (part_ident arr i) i,
       p_shown = (opened_of oldList (part_ident arr i) i \<or>
                  (case parent_at s i (join (take i arr)) of None \<Rightarrow> True | Some p \<Rightarrow> p_opened p)),
       p_index = index s,
       p_type = (if i = 0 then SketchFile else if i = 1 then PageFile else LayerFile),
       p_id = part_ident arr i,
       p_parts = take i arr,
       p_name = arr ! i,
       p_status = (if kind (f_status f) = Conflicted then Some (f_status f) else None) \<rparr>"

text \<open>A change record \<open>expands\<close> when the callback of \<^verbatim>\<open>reduce\<close> runs the
  \<^verbatim>\<open>forEach\<close> over its parts: \<^verbatim>\<open>parts\<close> is defined, \<^verbatim>\<open>sketchFile\<close> is truthy and
  the record is not a newly added sketch file (line 150).\<close>

definition expands :: "WorkingDirectoryFileChange \<Rightarrow> bool" where
  "expands f =
     (case f_parts f of
        None \<Rightarrow> False
      | Some parts \<Rightarrow> f_sketchFile f \<and> \<not> (length parts = 1 \<and> parts ! 0 @ ''/'' = f_path f))"

definition parts_of :: "WorkingDirectoryFileChange \<Rightarrow> string list" where
  "parts_of f = (case f_parts f of None \<Rightarrow> [] | Some ps \<Rightarrow> ps)"

definition previous_parts :: "WorkingDirectoryFileChange option \<Rightarrow> string list" where
  "previous_parts previousFile = (case previousFile of None \<Rightarrow> [] | Some pf \<Rightarrow> parts_of pf)"

definition file_parent :: "reduce_state \<Rightarrow> string list \<Rightarrow> TFakeSketchPartChange option" where
  "file_parent s parts =
     (if parentPartChange s = None \<or>
         (length parts > 1 \<and> p_id (the (parentPartChange s)) \<noteq> join parts)
      then map_of (fakePartsAcc s) (join parts)
      else if length parts \<le> 1 then None
      else parentPartChange s)"

definition file_shown :: "reduce_state \<Rightarrow> string list \<Rightarrow> bool" where
  "file_shown s parts =
     ((case file_parent s parts of None \<Rightarrow> False | Some p \<Rightarrow> p_opened p) \<or> length parts = 0)"

subsection \<open>The identifiers a pass stores, and the indices it hands out\<close>

text \<open>\<open>stored_ids\<close> lists, in the order of the pass, the identifiers under which it
  stores a node: for every change record that expands the identifiers of the parts that
  the skip-if-unchanged rule does not skip, then the \<^verbatim>\<open>id\<close> of the record.
  \<open>run_files\<close> is the loop of \<^verbatim>\<open>reduce\<close> on the shared variables alone.\<close>

definition created_ids :: "string list \<Rightarrow> string list \<Rightarrow> nat list \<Rightarrow> string list" where
  "created_ids previousParts arr xs =
     map (part_ident arr) (filter (\<lambda>i. \<not> skips previousParts arr i) xs)"

definition stored_by :: "WorkingDirectoryFileChange option \<Rightarrow> WorkingDirectoryFileChange \<Rightarrow> string list" where
  "stored_by previousFile f =
     (if expands f
      then created_ids (previous_parts previousFile) (parts_of f) [0..<length (parts_of f)]
      else []) @ [f_id f]"

fun stored_ids :: "WorkingDirectoryFileChange option \<Rightarrow> WorkingDirectoryFileChange list \<Rightarrow> string list" where
  "stored_ids previousFile [] = []"
| "stored_ids previousFile (f # fs) = stored_by previousFile f @ stored_ids (Some f) fs"

fun run_files ::
  "node_table option \<Rightarrow> WorkingDirectoryFileChange option \<Rightarrow> reduce_state \<Rightarrow>
   WorkingDirectoryFileChange list \<Rightarrow> reduce_state" where
  "run_files oldList previousFile s [] = s"
| "run_files oldList previousFile s (f # fs) =
     run_files oldList (Some f) (fst (reduce_body oldList previousFile s f)) fs"

definition indices :: "node_table \<Rightarrow> nat list" where
  "indices tbl = map (node_index \<circ> snd) tbl"

definition counted :: "reduce_state \<Rightarrow> bool" where
  "counted s = (indices (prev s) = [0..<length (prev s)] \<and> index s = length (prev s))"

definition bounded :: "reduce_state \<Rightarrow> bool" where
  "bounded s = (distinct (indices (prev s)) \<and> (\<forall>x \<in> set (indices (prev s)). x < index s))"

subsection \<open>The conflict status of a part\<close>

text \<open>\<open>status_at s k\<close> is the \<^verbatim>\<open>status\<close> of the synthesized part under \<open>k\<close> in the
  accumulator, if there is one; \<open>first_conflict\<close> is the status of the first record of
  a list that expands and is \<^verbatim>\<open>Conflicted\<close>.\<close>

definition status_at :: "reduce_state \<Rightarrow> string \<Rightarrow> AppFileStatus option option" where
  "status_at s k = (case map_of (prev s) k of Some (FakePart g) \<Rightarrow> Some (p_status g) | _ \<Rightarrow> None)"

definition conflict_of :: "WorkingDirectoryFileChange \<Rightarrow> AppFileStatus option" where
  "conflict_of f = (if kind (f_status f) = Conflicted then Some (f_status f) else None)"

definition first_conflict :: "WorkingDirectoryFileChange list \<Rightarrow> AppFileStatus option" where
  "first_conflict changes =
     (case find (\<lambda>f. expands f \<and> kind (f_status f) = Conflicted) changes of
        None \<Rightarrow> None
      | Some f \<Rightarrow> Some (f_status f))"

definition keep_first :: "AppFileStatus option \<Rightarrow> AppFileStatus option \<Rightarrow> AppFileStatus option" where
  "keep_first st new = (case st of Some x \<Rightarrow> Some x | None \<Rightarrow> new)"

subsection \<open>The visibility rule of the code\<close>

text \<open>
  \<open>ok_part\<close> and \<open>ok_file\<close> state what the code computes for \<^verbatim>\<open>shown\<close>: a part of
  depth 0 is shown, a deeper part is shown when it or the part one level up is opened,
  a change record with two or more parts is shown when the part it lies in is opened,
  and a record that does not expand or has no parts is shown.  (A record with one part is
  left out.)  \<open>extends\<close> relates a table to a later one of the same pass: every entry is
  still there, a part possibly with a status attached.  \<open>acc_fake\<close>, \<open>acc_parent\<close> and
  \<open>present\<close> tie \<^verbatim>\<open>fakePartsAcc\<close> and \<^verbatim>\<open>parentPartChange\<close> to the table.

  \<open>grouped\<close> is the shape of a change list on which the skip-if-unchanged rule is
  sound: the first element of \<^verbatim>\<open>parts\<close> is never the empty string, and whenever a part
  equals the part at the same position of the preceding record, that record expanded
  and has the same parts up to this position.
\<close>

definition ok_part :: "node_table \<Rightarrow> TFakeSketchPartChange \<Rightarrow> bool" where
  "ok_part T g =
     (if p_parts g = [] then p_shown g
      else (case map_of T (join (p_parts g)) of
              Some (FakePart p) \<Rightarrow> p_shown g = (p_opened g \<or> p_opened p)
            | _ \<Rightarrow> False))"

definition ok_file :: "node_table \<Rightarrow> WorkingDirectoryFileChange \<Rightarrow> bool" where
  "ok_file T f =
     (if \<not> expands f \<or> parts_of f = [] then f_shown f
      else if length (parts_of f) = 1 then True
      else (case map_of T (join (parts_of f)) of
              Some (FakePart p) \<Rightarrow> f_shown f = p_opened p
            | _ \<Rightarrow> False))"

fun ok_node :: "node_table \<Rightarrow> TFileOrSketchPartChange \<Rightarrow> bool" where
  "ok_node T (FakePart g) = ok_part T g"
| "ok_node T (FileChange f) = ok_file T f"

definition nodes_ok :: "node_table \<Rightarrow> bool" where
  "nodes_ok T = (\<forall>k n. map_of T k = Some n \<longrightarrow> ok_node T n)"

fun same_view :: "TFileOrSketchPartChange \<Rightarrow> TFileOrSketchPartChange \<Rightarrow> bool" where
  "same_view (FileChange f) (FileChange f') = (f' = f)"
| "same_view (FakePart g) (FakePart g') =
     (p_opened g' = p_opened g \<and> p_shown g' = p_shown g \<and> p_parts g' = p_parts g \<and>
      p_id g' = p_id g)"
| "same_view (FileChange f) (FakePart g') = False"
| "same_view (FakePart g) (FileChange f') = False"

definition extends :: "node_table \<Rightarrow> node_table \<Rightarrow> bool" where
  "extends T T' = (\<forall>k n. map_of T k = Some n \<longrightarrow> (\<exists>n'. map_of T' k = Some n' \<and> same_view n n'))"

definition acc_fake :: "reduce_state \<Rightarrow> bool" where
  "acc_fake s =
     (\<forall>k p. map_of (fakePartsAcc s) k = Some p \<longrightarrow>
        k \<noteq> [] \<and> p_id p = k \<and>
        (\<exists>c. map_of (prev s) k = Some (FakePart c) \<and> p_opened c = p_opened p))"

definition acc_parent :: "reduce_state \<Rightarrow> bool" where
  "acc_parent s =
     (\<forall>p. parentPartChange s = Some p \<longrightarrow> map_of (fakePartsAcc s) (p_id p) = Some p)"

definition present :: "reduce_state \<Rightarrow> string list \<Rightarrow> nat \<Rightarrow> bool" where
  "present s arr n = (\<forall>j<n. map_of (fakePartsAcc s) (join (take (Suc j) arr)) \<noteq> None)"

definition carried_prev :: "reduce_state \<Rightarrow> WorkingDirectoryFileChange option \<Rightarrow> bool" where
  "carried_prev s previousFile =
     (case previousFile of
        None \<Rightarrow> True
      | Some p \<Rightarrow> expands p \<longrightarrow> present s (parts_of p) (length (parts_of p)))"

definition grouped_step :: "WorkingDirectoryFileChange option \<Rightarrow> WorkingDirectoryFileChange \<Rightarrow> bool" where
  "grouped_step previousFile f =
     (expands f \<longrightarrow>
        (parts_of f \<noteq> [] \<longrightarrow> hd (parts_of f) \<noteq> []) \<and>
        (\<forall>i<length (parts_of f).
           skips (previous_parts previousFile) (parts_of f) i \<longrightarrow>
             (case previousFile of None \<Rightarrow> False | Some p \<Rightarrow> expands p) \<and>
             take (Suc i) (previous_parts previousFile) = take (Suc i) (parts_of f)))"

fun grouped :: "WorkingDirectoryFileChange option \<Rightarrow> WorkingDirectoryFileChange list \<Rightarrow> bool" where
  "grouped previousFile [] = True"
| "grouped previousFile (f # fs) = (grouped_step previousFile f \<and> grouped (Some f) fs)"

definition pass_ok :: "reduce_state \<Rightarrow> bool" where
  "pass_ok s = (acc_fake s \<and> acc_parent s \<and> nodes_ok (prev s))"

definition same_record :: "WorkingDirectoryFileChange \<Rightarrow> WorkingDirectoryFileChange \<Rightarrow> bool" where
  "same_record f' f = (f' = f\<lparr>f_shown := f_shown f', f_index := f_index f'\<rparr>)"

text \<open>The visibility rule in the words of the invariant: a node is visible exactly when
  it is a part of depth 0, or the part one level up exists and is both opened and shown.\<close>

definition parent_open_and_visible :: "node_table \<Rightarrow> string \<Rightarrow> bool" where
  "parent_open_and_visible T k =
     (case map_of T k of Some (FakePart p) \<Rightarrow> p_opened p \<and> p_shown p | _ \<Rightarrow> False)"

fun spec_visible :: "node_table \<Rightarrow> TFileOrSketchPartChange \<Rightarrow> bool" where
  "spec_visible T (FakePart g) = (p_parts g = [] \<or> parent_open_and_visible T (join (p_parts g)))"
| "spec_visible T (FileChange f) = parent_open_and_visible T (join (parts_of f))"

definition spec_visibility :: "node_table \<Rightarrow> bool" where
  "spec_visibility T = list_all (\<lambda>(k, n). node_shown n = spec_visible T n) T"

text \<open>Comparing two passes over the same change list.  The view of a node is its kind
  and its \<^verbatim>\<open>shown\<close> flag; \<open>view_le b\<close> relates two entries with the same key and the
  same kind, and, when \<open>b\<close> holds, the second shown wherever the first is.  \<open>state_le\<close>
  lifts this to the accumulator, \<open>old_le\<close> to the previous tables, through the
  \<^verbatim>\<open>opened\<close> flags they give.\<close>

definition node_view :: "TFileOrSketchPartChange \<Rightarrow> bool \<times> bool" where
  "node_view n = (case n of FakePart p \<Rightarrow> (True, p_shown p) | FileChange f \<Rightarrow> (False, f_shown f))"

definition views :: "node_table \<Rightarrow> (string \<times> bool \<times> bool) list" where
  "views T = map (\<lambda>e. (fst e, node_view (snd e))) T"

definition view_le :: "bool \<Rightarrow> string \<times> bool \<times> bool \<Rightarrow> string \<times> bool \<times> bool \<Rightarrow> bool" where
  "view_le b v1 v2 =
     (fst v1 = fst v2 \<and> fst (snd v1) = fst (snd v2) \<and> (b \<longrightarrow> snd (snd v1) \<longrightarrow> snd (snd v2)))"

definition part_le :: "bool \<Rightarrow> TFakeSketchPartChange \<Rightarrow> TFakeSketchPartChange \<Rightarrow> bool" where
  "part_le b p1 p2 = (p_id p1 = p_id p2 \<and> (b \<longrightarrow> p_opened p1 \<longrightarrow> p_opened p2))"

definition state_le :: "bool \<Rightarrow> reduce_state \<Rightarrow> reduce_state \<Rightarrow> bool" where
  "state_le b s1 s2 =
     (list_all2 (view_le b) (views (prev s1)) (views (prev s2)) \<and>
      (\<forall>k. rel_option (part_le b) (map_of (fakePartsAcc s1) k) (map_of (fakePartsAcc s2) k)) \<and>
      rel_option (part_le b) (parentPartChange s1) (parentPartChange s2))"

definition old_le :: "bool \<Rightarrow> node_table option \<Rightarrow> node_table option \<Rightarrow> bool" where
  "old_le b old1 old2 = (b \<longrightarrow> (\<forall>k i. opened_of old1 k i \<longrightarrow> opened_of old2 k i))"

text \<open>The state that \<^verbatim>\<open>setState\<close> leaves for a table: the table and its projection.\<close>

definition state_of :: "node_table \<Rightarrow> IChangesState" where
  "state_of T = \<lparr> files = T, visibleFileList = getOpenedFilesList T \<rparr>"

text \<open>\<open>asked\<close> lists, in the order of the pass, the identifiers and positions at which
  it reads the \<^verbatim>\<open>opened\<close> flag from the previous table: those of the parts it
  synthesizes.  \<open>opened_at\<close> is the \<^verbatim>\<open>opened\<close> flag of the part under an identifier.\<close>

definition created_at ::
  "WorkingDirectoryFileChange option \<Rightarrow> WorkingDirectoryFileChange \<Rightarrow> (string \<times> nat) list" where
  "created_at previousFile f =
     (if expands f
      then map (\<lambda>i. (part_ident (parts_of f) i, i))
             (filter (\<lambda>i. \<not> skips (previous_parts previousFile) (parts_of f) i) [0..<length (parts_of f)])
      else [])"

fun asked :: "WorkingDirectoryFileChange option \<Rightarrow> WorkingDirectoryFileChange list \<Rightarrow> (string \<times> nat) list" where
  "asked previousFile [] = []"
| "asked previousFile (f # fs) = created_at previousFile f @ asked (Some f) fs"

definition opened_at :: "node_table \<Rightarrow> string \<Rightarrow> bool option" where
  "opened_at T k = (case map_of T k of Some (FakePart g) \<Rightarrow> Some (p_opened g) | _ \<Rightarrow> None)"

text \<open>The \<open>outline\<close> of a node is the node without the flags \<^verbatim>\<open>opened\<close> and \<^verbatim>\<open>shown\<close>;
  the \<open>shape\<close> of a table is the table of its outlines.  \<open>child_to_hide g n\<close> says that
  the node \<open>n\<close> lies directly in the part \<open>g\<close> and is shown only as long as \<open>g\<close> is
  opened: a part one level below \<open>g\<close> that is not opened itself, or a change record
  whose parts lead to \<open>g\<close> and that is shown.  \<open>one_ok\<close> says of the change records with
  exactly one part what \<open>ok_file\<close> leaves out: such a record is shown only when the part
  it lies in is opened.\<close>

definition outline ::
  "TFileOrSketchPartChange \<Rightarrow>
   (nat \<times> FileType \<times> string \<times> string list \<times> string \<times> AppFileStatus option) +
   (string \<times> string \<times> string list option \<times> bool \<times> AppFileStatus \<times> nat)" where
  "outline n =
     (case n of
        FakePart p \<Rightarrow> Inl (p_index p, p_type p, p_id p, p_parts p, p_name p, p_status p)
      | FileChange f \<Rightarrow> Inr (f_id f, f_path f, f_parts f, f_sketchFile f, f_status f, f_index f))"

definition shape ::
  "node_table \<Rightarrow>
   (string \<times> ((nat \<times> FileType \<times> string \<times> string list \<times> string \<times> AppFileStatus option) +
      (string \<times> string \<times> string list option \<times> bool \<times> AppFileStatus \<times> nat))) list" where
  "shape T = map (\<lambda>e. (fst e, outline (snd e))) T"

definition one_node :: "node_table \<Rightarrow> TFileOrSketchPartChange \<Rightarrow> bool" where
  "one_node T n =
     (case n of
        FakePart q \<Rightarrow> True
      | FileChange f \<Rightarrow>
          expands f \<and> length (parts_of f) = 1 \<and> f_shown f \<longrightarrow>
            (\<exists>p. map_of T (join (parts_of f)) = Some (FakePart p) \<and> p_opened p))"

definition one_ok :: "node_table \<Rightarrow> bool" where
  "one_ok T = (\<forall>k n. map_of T k = Some n \<longrightarrow> one_node T n)"

definition child_to_hide :: "string \<Rightarrow> TFileOrSketchPartChange \<Rightarrow> bool" where
  "child_to_hide g n =
     (case n of
        FakePart q \<Rightarrow> p_parts q \<noteq> [] \<and> join (p_parts q) = g \<and> \<not> p_opened q
      | FileChange f \<Rightarrow> expands f \<and> parts_of f \<noteq> [] \<and> join (parts_of f) = g \<and> f_shown f)"

text \<open>For the pass on a store: the pieces of its callbacks, named as those of the pass
  on values are.  \<open>frame st0 A\<close> says what a pass that started in the store \<open>st0\<close> over
  the addresses \<open>A\<close> has left alone.  \<open>node_of\<close> and \<open>deref\<close> read a reference and a
  table of references in a store; \<open>wf_refs\<close>, \<open>rel\<close> and \<open>sim\<close> relate the variables of
  the pass on a store to those of the pass on values.  \<open>old_allocated\<close> says that the
  parts the previous table refers to are objects of the store.\<close>

definition reset_parent_h :: "nat \<Rightarrow> heap_state \<Rightarrow> heap_state" where
  "reset_parent_h i s = (if i \<le> 1 then s\<lparr>h_parentPartChange := None\<rparr> else s)"

definition parent_at_h :: "heap_state \<Rightarrow> nat \<Rightarrow> string \<Rightarrow> addr option" where
  "parent_at_h s i parentId =
     (case h_parentPartChange s of
        None \<Rightarrow> map_of (h_fakePartsAcc s) parentId
      | Some p \<Rightarrow>
          if i > 1 \<and> p_id (part_at (h_store s) p) \<noteq> parentId
          then map_of (h_fakePartsAcc s) parentId else Some p)"

definition new_part_h ::
  "ref_table option \<Rightarrow> addr \<Rightarrow> string list \<Rightarrow> nat \<Rightarrow> heap_state \<Rightarrow> TFakeSketchPartChange" where
  "new_part_h oldList fa arr i s =
     \<lparr> p_opened = opened_of_h (h_store s) oldList (part_ident arr i) i,
       p_shown = (opened_of_h (h_store s) oldList (part_ident arr i) i \<or>
                  (case parent_at_h s i (join (take i arr)) of None \<Rightarrow> True
                   | Some p \<Rightarrow> p_opened (part_at (h_store s) p))),
       p_index = h_index s,
       p_type = (if i = 0 then SketchFile else if i = 1 then PageFile else LayerFile),
       p_id = part_ident arr i,
       p_parts = take i arr,
       p_name = arr ! i,
       p_status = (if kind (f_status (file_at (h_store s) fa)) = Conflicted
                   then Some (f_status (file_at (h_store s) fa)) else None) \<rparr>"

definition attach_status_h :: "addr \<Rightarrow> string \<Rightarrow> heap_state \<Rightarrow> store" where
  "attach_status_h fa k s =
     (if kind (f_status (file_at (h_store s) fa)) = Conflicted then
        (case map_of (h_prev s) k of
           Some (PartRef c) \<Rightarrow>
             if p_status (part_at (h_store s) c) = None
             then (h_store s)\<lparr>part_at := (part_at (h_store s))
                    (c := (part_at (h_store s) c)\<lparr>p_status := Some (f_status (file_at (h_store s) fa))\<rparr>)\<rparr>
             else h_store s
         | _ \<Rightarrow> h_store s)
      else h_store s)"

definition frame :: "store \<Rightarrow> addr set \<Rightarrow> heap_state \<Rightarrow> bool" where
  "frame st0 A s =
     (next_part st0 \<le> next_part (h_store s) \<and>
      (\<forall>a. a < next_part st0 \<longrightarrow> part_at (h_store s) a = part_at st0 a) \<and>
      (\<forall>a. a \<notin> A \<longrightarrow> file_at (h_store s) a = file_at st0 a) \<and>
      (\<forall>a. same_record (file_at (h_store s) a) (file_at st0 a)) \<and>
      (\<forall>k a. map_of (h_prev s) k = Some (PartRef a) \<longrightarrow> next_part st0 \<le> a))"

fun node_of :: "store \<Rightarrow> node_ref \<Rightarrow> TFileOrSketchPartChange" where
  "node_of st (FileRef a) = FileChange (file_at st a)"
| "node_of st (PartRef a) = FakePart (part_at st a)"

definition deref :: "store \<Rightarrow> ref_table \<Rightarrow> node_table" where
  "deref st T = map (\<lambda>e. (fst e, node_of st (snd e))) T"

definition part_sim :: "store \<Rightarrow> addr \<Rightarrow> TFakeSketchPartChange \<Rightarrow> bool" where
  "part_sim st a p = (p_opened (part_at st a) = p_opened p \<and> p_id (part_at st a) = p_id p)"

definition wf_refs :: "heap_state \<Rightarrow> bool" where
  "wf_refs s =
     (distinct (map fst (h_prev s)) \<and>
      (\<forall>k a. (k, PartRef a) \<in> set (h_prev s) \<longrightarrow>
         a < next_part (h_store s) \<and> p_id (part_at (h_store s) a) = k) \<and>
      (\<forall>k a. (k, FileRef a) \<in> set (h_prev s) \<longrightarrow> f_id (file_at (h_store s) a) = k) \<and>
      (\<forall>k a. map_of (h_fakePartsAcc s) k = Some a \<longrightarrow> a < next_part (h_store s)) \<and>
      (\<forall>a. h_parentPartChange s = Some a \<longrightarrow> a < next_part (h_store s)))"

definition rel :: "heap_state \<Rightarrow> reduce_state \<Rightarrow> bool" where
  "rel s t =
     (prev t = deref (h_store s) (h_prev s) \<and>
      (\<forall>k. rel_option (part_sim (h_store s)) (map_of (h_fakePartsAcc s) k) (map_of (fakePartsAcc t) k)) \<and>
      rel_option (part_sim (h_store s)) (h_parentPartChange s) (parentPartChange t) \<and>
      h_index s = index t)"

definition old_allocated :: "store \<Rightarrow> ref_table option \<Rightarrow> bool" where
  "old_allocated st oldList =
     (\<forall>ol k a. oldList = Some ol \<longrightarrow> map_of ol k = Some (PartRef a) \<longrightarrow> a < next_part st)"

definition file_parent_h :: "heap_state \<Rightarrow> string list \<Rightarrow> addr option" where
  "file_parent_h s parts =
     (if h_parentPartChange s = None \<or>
         (length parts > 1 \<and> p_id (part_at (h_store s) (the (h_parentPartChange s))) \<noteq> join parts)
      then map_of (h_fakePartsAcc s) (join parts)
      else if length parts \<le> 1 then None
      else h_parentPartChange s)"

definition file_shown_h :: "heap_state \<Rightarrow> string list \<Rightarrow> bool" where
  "file_shown_h s parts =
     ((case file_parent_h s parts of None \<Rightarrow> False | Some p \<Rightarrow> p_opened (part_at (h_store s) p))
      \<or> length parts = 0)"

definition previous_parts_h :: "store \<Rightarrow> addr option \<Rightarrow> string list" where
  "previous_parts_h st previousFile =
     (case previousFile of None \<Rightarrow> [] | Some pa \<Rightarrow> parts_of (file_at st pa))"

definition sim :: "store \<Rightarrow> addr set \<Rightarrow> heap_state \<Rightarrow> reduce_state \<Rightarrow> bool" where
  "sim st0 A s t = (frame st0 A s \<and> wf_refs s \<and> rel s t)"

text \<open>Every synthesized part of a table stands under its own identifier and has the
  \<^verbatim>\<open>opened\<close> flag that \<open>opened_of\<close> gives for that identifier and its depth.\<close>

definition opened_from :: "node_table option \<Rightarrow> node_table \<Rightarrow> bool" where
  "opened_from oldList tbl =
     (\<forall>k g. map_of tbl k = Some (FakePart g) \<longrightarrow>
        p_id g = k \<and> p_opened g = opened_of oldList k (length (p_parts g)))"

text \<open>The rebuild guard in the words of its description: the three selection
  identifiers are unchanged; the state after a rebuild over a change list.\<close>

definition selection_unchanged :: "ChangesList \<Rightarrow> IChangesListProps \<Rightarrow> bool" where
  "selection_unchanged this nextProps =
     (selectedFileIDs nextProps = selectedFileIDs (props this) \<and>
      selectedSketchFileID nextProps = selectedSketchFileID (props this) \<and>
      selectedSketchPartID nextProps = selectedSketchPartID (props this))"

definition rebuild :: "ChangesList \<Rightarrow> WorkingDirectoryFileChange list \<Rightarrow> IChangesState" where
  "rebuild this changes =
     \<lparr> files = getFileList changes (Some (files (state this))),
       visibleFileList = getOpenedFilesList (getFileList changes (Some (files (state this)))) \<rparr>"

subsection \<open>Example inputs\<close>

definition file_B :: WorkingDirectoryFileChange where
  "file_B = \<lparr> f_id = ''Modified+doc.sketch/pages/page1/layer1.json'',
     f_path = ''doc.sketch/pages/page1/layer1.json'',
     f_parts = Some [''doc.sketch'', ''page1'', ''layer1''], f_sketchFile = True,
     f_status = \<lparr>kind = Modified, detail = []\<rparr>, f_shown = False, f_index = 0 \<rparr>"

definition readme :: WorkingDirectoryFileChange where
  "readme = \<lparr> f_id = ''New+readme.md'', f_path = ''readme.md'', f_parts = None, f_sketchFile = False,
     f_status = \<lparr>kind = New, detail = []\<rparr>, f_shown = False, f_index = 0 \<rparr>"

definition no_selection :: "WorkingDirectoryFileChange list \<Rightarrow> IChangesListProps" where
  "no_selection changes = \<lparr> workingDirectory_files = changes, selectedFileIDs = [],
     selectedSketchFileID = None, selectedSketchPartID = None \<rparr>"

definition file_A1 :: WorkingDirectoryFileChange where
  "file_A1 = \<lparr> f_id = ''Modified+a.sketch/document.json'', f_path = ''a.sketch/document.json'',
     f_parts = Some [''a.sketch''], f_sketchFile = True,
     f_status = \<lparr>kind = Modified, detail = []\<rparr>, f_shown = False, f_index = 0 \<rparr>"

definition file_A2 :: WorkingDirectoryFileChange where
  "file_A2 = \<lparr> f_id = ''Modified+a.sketch/meta.json'', f_path = ''a.sketch/meta.json'',
     f_parts = Some [''a.sketch''], f_sketchFile = True,
     f_status = \<lparr>kind = Modified, detail = []\<rparr>, f_shown = False, f_index = 0 \<rparr>"

definition file_Z :: WorkingDirectoryFileChange where
  "file_Z = \<lparr> f_id = ''Modified+z.sketch/document.json'', f_path = ''z.sketch/document.json'',
     f_parts = Some [''z.sketch''], f_sketchFile = True,
     f_status = \<lparr>kind = Modified, detail = []\<rparr>, f_shown = False, f_index = 0 \<rparr>"

definition file_C1 :: WorkingDirectoryFileChange where
  "file_C1 = \<lparr> f_id = ''Conflicted+a.sketch/pages/page1/layer1.json'',
     f_path = ''a.sketch/pages/page1/layer1.json'',
     f_parts = Some [''a.sketch'', ''page1''], f_sketchFile = True,
     f_status = \<lparr>kind = Conflicted, detail = ''first''\<rparr>, f_shown = False, f_index = 0 \<rparr>"

definition file_C2 :: WorkingDirectoryFileChange where
  "file_C2 = \<lparr> f_id = ''Conflicted+a.sketch/pages/page1/layer2.json'',
     f_path = ''a.sketch/pages/page1/layer2.json'',
     f_parts = Some [''a.sketch'', ''page1''], f_sketchFile = True,
     f_status = \<lparr>kind = Conflicted, detail = ''second''\<rparr>, f_shown = False, f_index = 0 \<rparr>"

text \<open>The component over one change record after three toggles: the page opened, the
  layer opened, the page closed again; and the table it then holds.\<close>

definition toggled :: "ChangesList \<Rightarrow> string \<Rightarrow> bool \<Rightarrow> ChangesList" where
  "toggled this ident opened = (case onOpenChanged this ident opened of Inr c \<Rightarrow> c | Inl e \<Rightarrow> this)"

definition component_B :: ChangesList where
  "component_B =
     toggled (toggled (toggled (ChangesList_constructor (no_selection [file_B]))
       ''doc.sketch/page1'' True) ''doc.sketch/page1/layer1'' True) ''doc.sketch/page1'' False"

definition table_C :: node_table where
  "table_C =
     [(''doc.sketch'',
       FakePart \<lparr> p_opened = True, p_shown = True, p_index = 0, p_type = SketchFile,
         p_id = ''doc.sketch'', p_parts = [], p_name = ''doc.sketch'', p_status = None \<rparr>),
      (''doc.sketch/page1'',
       FakePart \<lparr> p_opened = False, p_shown = True, p_index = 1, p_type = PageFile,
         p_id = ''doc.sketch/page1'', p_parts = [''doc.sketch''], p_name = ''page1'',
         p_status = None \<rparr>),
      (''doc.sketch/page1/layer1'',
       FakePart \<lparr> p_opened = True, p_shown = True, p_index = 2, p_type = LayerFile,
         p_id = ''doc.sketch/page1/layer1'', p_parts = [''doc.sketch'', ''page1''],
         p_name = ''layer1'', p_status = None \<rparr>),
      (f_id file_B, FileChange (file_B\<lparr>f_shown := True, f_index := 3\<rparr>))]"

text \<open>The component over the same change record after two toggles: the page opened, the
  layer opened; and the table it then holds.\<close>

definition component_open :: ChangesList where
  "component_open =
     toggled (toggled (ChangesList_constructor (no_selection [file_B]))
       ''doc.sketch/page1'' True) ''doc.sketch/page1/layer1'' True"

definition table_open :: node_table where
  "table_open =
     [(''doc.sketch'',
       FakePart \<lparr> p_opened = True, p_shown = True, p_index = 0, p_type = SketchFile,
         p_id = ''doc.sketch'', p_parts = [], p_name = ''doc.sketch'', p_status = None \<rparr>),
      (''doc.sketch/page1'',
       FakePart \<lparr> p_opened = True, p_shown = True, p_index = 1, p_type = PageFile,
         p_id = ''doc.sketch/page1'', p_parts = [''doc.sketch''], p_name = ''page1'',
         p_status = None \<rparr>),
      (''doc.sketch/page1/layer1'',
       FakePart \<lparr> p_opened = True, p_shown = True, p_index = 2, p_type = LayerFile,
         p_id = ''doc.sketch/page1/layer1'', p_parts = [''doc.sketch'', ''page1''],
         p_name = ''layer1'', p_status = None \<rparr>),
      (f_id file_B, FileChange (file_B\<lparr>f_shown := True, f_index := 3\<rparr>))]"

text \<open>The component over the one change record, after \<^verbatim>\<open>componentWillReceiveProps\<close> has
  returned early for a changed selection and the framework has made the new props,
  with a longer change list, the props of the component: the table is not rebuilt.\<close>

definition stale_component :: ChangesList where
  "stale_component =
     (fst (componentWillReceiveProps (ChangesList_constructor (no_selection [file_B]))
        ((no_selection [file_B, readme, file_A1])\<lparr>selectedFileIDs := [f_id readme]\<rparr>)))
     \<lparr>props := snd (componentWillReceiveProps (ChangesList_constructor (no_selection [file_B]))
        ((no_selection [file_B, readme, file_A1])\<lparr>selectedFileIDs := [f_id readme]\<rparr>))\<rparr>"

text \<open>Two stores: one with the change record of the layer at address 0, the record
  \<^verbatim>\<open>readme.md\<close> at every other address and an opened page at every part address, the
  part at address 0 being the only one made; with it a previous table that refers to
  that part and to the record at address 0.  And a store that holds \<^verbatim>\<open>readme.md\<close> and
  in which no part has been made.\<close>

definition part_page1_open :: TFakeSketchPartChange where
  "part_page1_open = \<lparr> p_opened = True, p_shown = True, p_index = 1, p_type = PageFile,
     p_id = ''doc.sketch/page1'', p_parts = [''doc.sketch''], p_name = ''page1'', p_status = None \<rparr>"

definition store_B :: store where
  "store_B = \<lparr> file_at = (\<lambda>a. if a = 0 then file_B else readme),
               part_at = (\<lambda>a. part_page1_open), next_part = 1 \<rparr>"

definition ref_old_B :: ref_table where
  "ref_old_B = [(''doc.sketch/page1'', PartRef 0), (f_id file_B, FileRef 0)]"

definition store_R :: store where
  "store_R = \<lparr> file_at = (\<lambda>a. readme), part_at = (\<lambda>a. part_page1_open), next_part = 0 \<rparr>"


text \<open>The three parts and the table that one change record with the parts
  \<^verbatim>\<open>["doc.sketch", "page1", "layer1"]\<close> gives when there is no previous table.\<close>

definition status_B :: "WorkingDirectoryFileChange \<Rightarrow> AppFileStatus option" where
  "status_B f = (if kind (f_status f) = Conflicted then Some (f_status f) else None)"

definition part_doc :: "WorkingDirectoryFileChange \<Rightarrow> TFakeSketchPartChange" where
  "part_doc f = \<lparr> p_opened = True, p_shown = True, p_index = 0, p_type = SketchFile,
     p_id = ''doc.sketch'', p_parts = [], p_name = ''doc.sketch'', p_status = status_B f \<rparr>"

definition part_page1 :: "WorkingDirectoryFileChange \<Rightarrow> TFakeSketchPartChange" where
  "part_page1 f = \<lparr> p_opened = False, p_shown = True, p_index = 1, p_type = PageFile,
     p_id = ''doc.sketch/page1'', p_parts = [''doc.sketch''], p_name = ''page1'',
     p_status = status_B f \<rparr>"

definition part_layer1 :: "WorkingDirectoryFileChange \<Rightarrow> TFakeSketchPartChange" where
  "part_layer1 f = \<lparr> p_opened = False, p_shown = False, p_index = 2, p_type = LayerFile,
     p_id = ''doc.sketch/page1/layer1'', p_parts = [''doc.sketch'', ''page1''], p_name = ''layer1'',
     p_status = status_B f \<rparr>"

definition table_B :: "WorkingDirectoryFileChange \<Rightarrow> node_table" where
  "table_B f =
     [(''doc.sketch'', FakePart (part_doc f)), (''doc.sketch/page1'', FakePart (part_page1 f)),
      (''doc.sketch/page1/layer1'', FakePart (part_layer1 f)),
      (f_id f, FileChange (f\<lparr>f_shown := False, f_index := 3\<rparr>))]"

section \<open>The callbacks, branch by branch\<close>

lemma forEach_body_eq:
  "forEach_body oldList f pp arr s i =
     (if skips pp arr i
      then (reset_parent i s)\<lparr>prev := attach_status f (part_ident arr i) (prev (reset_parent i s))\<rparr>
      else (reset_parent i s)\<lparr>
        prev := AList.update (part_ident arr i) (FakePart (new_part oldList f arr i (reset_parent i s)))
                  (prev (reset_parent i s)),
        fakePartsAcc := AList.update (part_ident arr i) (new_part oldList f arr i (reset_parent i s))
                  (fakePartsAcc (reset_parent i s)),
        parentPartChange := Some (new_part oldList f arr i (reset_parent i s)),
        index := index (reset_parent i s) + 1\<rparr>)"
proof (cases "skips pp arr i")
  case True
  then have c: "i < length pp \<and> arr ! i = pp ! i" by (simp add: skips_def)
  show ?thesis
    unfolding forEach_body_def Let_def reset_parent_def[symmetric] if_P[OF c] if_P[OF True]
    by (simp add: attach_status_def part_ident_def
        split: option.split TFileOrSketchPartChange.split)
next
  case False
  then have c: "\<not> (i < length pp \<and> arr ! i = pp ! i)" by (simp add: skips_def)
  show ?thesis
    unfolding forEach_body_def Let_def reset_parent_def[symmetric] if_not_P[OF c] if_not_P[OF False]
    by (simp add: new_part_def part_ident_def parent_at_def)
qed

lemma reset_parent_simps [simp]:
  "prev (reset_parent i s) = prev s"
  "fakePartsAcc (reset_parent i s) = fakePartsAcc s"
  "index (reset_parent i s) = index s"
  by (simp_all add: reset_parent_def)

lemma reduce_body_plain:
  "\<not> expands f \<Longrightarrow> reduce_body oldList previousFile s f = store_file f True s"
  unfolding reduce_body_def expands_def
  by (simp split: option.splits)

lemma reduce_body_expands:
  "expands f \<Longrightarrow>
   reduce_body oldList previousFile s f =
     store_file f
       (file_shown (forEach_parts oldList f (previous_parts previousFile) (parts_of f) s) (parts_of f))
       ((forEach_parts oldList f (previous_parts previousFile) (parts_of f) s)
          \<lparr>parentPartChange :=
             file_parent (forEach_parts oldList f (previous_parts previousFile) (parts_of f) s)
               (parts_of f)\<rparr>)"
proof -
  assume e: "expands f"
  then obtain parts where p: "f_parts f = Some parts" and sk: "f_sketchFile f"
    and ns: "\<not> (length parts = 1 \<and> parts ! 0 @ ''/'' = f_path f)"
    by (auto simp: expands_def split: option.splits)
  have pp: "(case previousFile of None \<Rightarrow> [] | Some pf \<Rightarrow> (case f_parts pf of None \<Rightarrow> [] | Some ps \<Rightarrow> ps))
      = previous_parts previousFile"
    by (simp add: previous_parts_def parts_of_def split: option.split)
  have po: "parts_of f = parts" by (simp add: parts_of_def p)
  have a: "\<not> \<not> f_sketchFile f" using sk by simp
  define s1 where "s1 = forEach_parts oldList f (previous_parts previousFile) parts s"
  have "reduce_body oldList previousFile s f =
      (let s2 =
             (if parentPartChange s1 = None \<or>
                 (length parts > 1 \<and> p_id (the (parentPartChange s1)) \<noteq> join parts)
              then s1\<lparr>parentPartChange := map_of (fakePartsAcc s1) (join parts)\<rparr>
              else if length parts \<le> 1 then s1\<lparr>parentPartChange := None\<rparr>
              else s1);
           sh = ((case parentPartChange s2 of None \<Rightarrow> False | Some p \<Rightarrow> p_opened p)
                       \<or> length parts = 0)
       in store_file f sh s2)"
    unfolding reduce_body_def p option.case if_not_P[OF a] if_not_P[OF ns] pp
    by (simp only: Let_def s1_def)
  also have "\<dots> = store_file f (file_shown s1 parts) (s1\<lparr>parentPartChange := file_parent s1 parts\<rparr>)"
    by (simp add: file_shown_def file_parent_def Let_def)
  finally show ?thesis unfolding po s1_def .
qed

lemma fst_store_file:
  "fst (store_file f sh s) =
     s\<lparr>prev := AList.update (f_id f) (FileChange (f\<lparr>f_shown := sh, f_index := index s\<rparr>)) (prev s),
       index := index s + 1\<rparr>"
  by (simp add: store_file_def Let_def)

lemma snd_store_file: "snd (store_file f sh s) = f\<lparr>f_shown := sh, f_index := index s\<rparr>"
  by (simp add: store_file_def Let_def)

lemma fst_reduce_files_Cons:
  "fst (reduce_files oldList pf s (f # fs)) =
     fst (reduce_files oldList (Some (snd (reduce_body oldList pf s f)))
            (fst (reduce_body oldList pf s f)) fs)"
  by (simp split: prod.split)

lemma snd_reduce_files_Cons:
  "snd (reduce_files oldList pf s (f # fs)) =
     snd (reduce_body oldList pf s f) #
     snd (reduce_files oldList (Some (snd (reduce_body oldList pf s f)))
            (fst (reduce_body oldList pf s f)) fs)"
  by (simp split: prod.split)

lemma snd_reduce_body:
  "\<exists>sh ix. snd (reduce_body oldList pf s f) = f\<lparr>f_shown := sh, f_index := ix\<rparr>"
  by (cases "expands f") (auto simp: reduce_body_expands reduce_body_plain snd_store_file)

lemma parts_of_snd_reduce_body [simp]:
  "parts_of (snd (reduce_body oldList pf s f)) = parts_of f"
  using snd_reduce_body [of oldList pf s f] by (auto simp: parts_of_def)

subsection \<open>Carrying an invariant through the two loops\<close>

lemma fold_preserves:
  assumes "P s" and "\<And>x s'. x \<in> set xs \<Longrightarrow> P s' \<Longrightarrow> P (g x s')"
  shows "P (fold g xs s)"
  using assms by (induction xs arbitrary: s) auto

lemma forEach_parts_preserves:
  assumes "P s"
    and "\<And>i s'. i < length arr \<Longrightarrow> P s' \<Longrightarrow> P (forEach_body oldList f pp arr s' i)"
  shows "P (forEach_parts oldList f pp arr s)"
  unfolding forEach_parts_def
  by (rule fold_preserves [where P = P]) (use assms in auto)

lemma reduce_files_preserves:
  assumes "P s"
    and "\<And>pf s' f. P s' \<Longrightarrow> P (fst (reduce_body oldList pf s' f))"
  shows "P (fst (reduce_files oldList previousFile s fs))"
  using assms(1)
proof (induction fs arbitrary: s previousFile)
  case Nil
  then show ?case by simp
next
  case (Cons f fs)
  have "P (fst (reduce_body oldList previousFile s f))"
    by (rule assms(2) [OF Cons.prems])
  from Cons.IH [OF this] show ?case
    unfolding fst_reduce_files_Cons .
qed

lemma map_of_attach_status:
  "map_of (attach_status f k tbl) k' =
     (if k' = k \<and> kind (f_status f) = Conflicted then
        (case map_of tbl k of
           Some (FakePart c) \<Rightarrow>
             Some (FakePart (if p_status c = None then c\<lparr>p_status := Some (f_status f)\<rparr> else c))
         | r \<Rightarrow> r)
      else map_of tbl k')"
  by (auto simp: attach_status_def update_conv' split: option.splits TFileOrSketchPartChange.splits)

subsection \<open>The \<^verbatim>\<open>opened\<close> flag of every synthesized part\<close>

lemma opened_from_attach:
  "opened_from oldList tbl \<Longrightarrow> opened_from oldList (attach_status f k tbl)"
  unfolding opened_from_def map_of_attach_status
  by (auto split: option.splits TFileOrSketchPartChange.splits if_splits)

lemma opened_from_new_part:
  "opened_from oldList tbl \<Longrightarrow> i < length arr \<Longrightarrow>
   opened_from oldList (AList.update (part_ident arr i) (FakePart (new_part oldList f arr i s)) tbl)"
  unfolding opened_from_def update_conv'
  by (auto simp: new_part_def)

lemma opened_from_file:
  "opened_from oldList tbl \<Longrightarrow> opened_from oldList (AList.update k (FileChange f) tbl)"
  unfolding opened_from_def update_conv'
  by auto

lemma opened_from_forEach_body:
  "opened_from oldList (prev s) \<Longrightarrow> i < length arr \<Longrightarrow>
   opened_from oldList (prev (forEach_body oldList f pp arr s i))"
  by (simp add: forEach_body_eq opened_from_attach opened_from_new_part)

lemma opened_from_reduce_body:
  assumes "opened_from oldList (prev s)"
  shows "opened_from oldList (prev (fst (reduce_body oldList pf s f)))"
proof (cases "expands f")
  case True
  have "opened_from oldList (prev (forEach_parts oldList f (previous_parts pf) (parts_of f) s))"
    by (rule forEach_parts_preserves [where P = "\<lambda>s. opened_from oldList (prev s)"])
       (use assms opened_from_forEach_body in auto)
  then show ?thesis
    by (simp add: reduce_body_expands [OF True] fst_store_file opened_from_file)
next
  case False
  then show ?thesis
    by (simp add: reduce_body_plain fst_store_file opened_from_file assms)
qed

lemma opened_from_getFileList: "opened_from oldList (getFileList changes oldList)"
  unfolding getFileList_def
proof (rule reduce_files_preserves [where P = "\<lambda>s. opened_from oldList (prev s)"])
  show "opened_from oldList (prev init_state)"
    by (simp add: opened_from_def init_state_def)
qed (rule opened_from_reduce_body)

section \<open>Claims about single steps and the controller\<close>

text \<open>
  C10.  A change record whose \<^verbatim>\<open>sketchFile\<close> is falsy is a plain file whatever its
  \<^verbatim>\<open>parts\<close> are: the callback of \<^verbatim>\<open>reduce\<close> leaves \<^verbatim>\<open>fakePartsAcc\<close> and
  \<^verbatim>\<open>parentPartChange\<close> as they are, so no part is synthesized, and the only entry it
  writes is the record itself under its \<^verbatim>\<open>id\<close>, with \<^verbatim>\<open>shown = true\<close> and the
  next index.
\<close>

theorem falsy_sketchFile_is_plain_file:
  "\<not> f_sketchFile f \<Longrightarrow>
   reduce_body oldList previousFile s f =
     (s\<lparr>prev := AList.update (f_id f) (FileChange (f\<lparr>f_shown := True, f_index := index s\<rparr>)) (prev s),
        index := index s + 1\<rparr>,
      f\<lparr>f_shown := True, f_index := index s\<rparr>)"
  by (simp add: reduce_body_plain expands_def store_file_def Let_def split: option.splits)

theorem falsy_sketchFile_is_plain_file_witness:
  "reduce_body None None init_state (file_B\<lparr>f_sketchFile := False\<rparr>) =
     (\<lparr>prev = [(f_id file_B, FileChange (file_B\<lparr>f_sketchFile := False, f_shown := True, f_index := 0\<rparr>))],
       fakePartsAcc = [], parentPartChange = None, index = 1\<rparr>,
      file_B\<lparr>f_sketchFile := False, f_shown := True, f_index := 0\<rparr>)"
  using falsy_sketchFile_is_plain_file [of "file_B\<lparr>f_sketchFile := False\<rparr>" None None init_state]
  by (simp add: init_state_def file_B_def)

text \<open>
  C2, as stated, fails: the selection identifiers are unchanged between the props of a
  component built over no changes and the next props, and yet
  \<^verbatim>\<open>componentWillReceiveProps\<close> replaces the state.
\<close>

theorem rebuild_guard_counterexample:
  "selection_unchanged (ChangesList_constructor (no_selection [])) (no_selection [readme]) \<and>
   fst (componentWillReceiveProps (ChangesList_constructor (no_selection [])) (no_selection [readme]))
     \<noteq> ChangesList_constructor (no_selection [])"
  by code_simp

text \<open>
  C2, amended.  \<^verbatim>\<open>componentWillReceiveProps\<close> rebuilds (synthesis over the new change
  list with the current table as the previous one, then the projection) exactly when
  the three selection identifiers are unchanged, and returns without touching the
  state when one of them differs.
\<close>

theorem rebuild_guard:
  "fst (componentWillReceiveProps this nextProps) =
     (if selection_unchanged this nextProps
      then this\<lparr>state := rebuild this (workingDirectory_files nextProps)\<rparr>
      else this)"
  by (simp add: componentWillReceiveProps_def selection_unchanged_def rebuild_def arrayEquals_def Let_def)

theorem rebuild_guard_witness:
  "files (state (fst (componentWillReceiveProps (ChangesList_constructor (no_selection []))
       (no_selection [readme])))) = [(''New+readme.md'', FileChange (readme\<lparr>f_shown := True\<rparr>))] \<and>
   fst (componentWillReceiveProps (ChangesList_constructor (no_selection []))
       ((no_selection [readme])\<lparr>selectedFileIDs := [''New+readme.md'']\<rparr>)) =
     ChangesList_constructor (no_selection [])"
  unfolding rebuild_guard
  by code_simp

text \<open>
  C4, as stated, fails: \<^verbatim>\<open>onOpenChanged\<close> with an identifier that is absent from the
  table, and is not a name inherited from \<^verbatim>\<open>Object.prototype\<close>, raises a
  \<^verbatim>\<open>TypeError\<close>.
\<close>

theorem toggle_absent_counterexample:
  "map_of (files (state (ChangesList_constructor (no_selection [file_B])))) ''doc.sketch/page2'' = None \<and>
   ''doc.sketch/page2'' \<notin> set Object_prototype_names \<and>
   onOpenChanged (ChangesList_constructor (no_selection [file_B])) ''doc.sketch/page2'' True = Inl TypeError"
  by code_simp

text \<open>
  C4, amended.  \<^verbatim>\<open>onOpenChanged\<close> with an identifier that names a change record of
  the table returns without an error and leaves the component, its table and its
  projection as they are; so it does with an identifier that is absent from the table
  and is a name inherited from \<^verbatim>\<open>Object.prototype\<close>.  With an identifier that is
  absent from the table and is not such a name it raises a \<^verbatim>\<open>TypeError\<close>, before
  anything is written.
\<close>

theorem toggle_absent_or_file:
  "(map_of (files (state this)) ident = None \<and> ident \<notin> set Object_prototype_names \<longrightarrow>
      onOpenChanged this ident opened = Inl TypeError) \<and>
   (map_of (files (state this)) ident = None \<and> ident \<in> set Object_prototype_names \<longrightarrow>
      onOpenChanged this ident opened = Inr this) \<and>
   (\<forall>f. map_of (files (state this)) ident = Some (FileChange f) \<longrightarrow>
        onOpenChanged this ident opened = Inr this)"
  by (simp add: onOpenChanged_def)

theorem toggle_absent_or_file_witness:
  "onOpenChanged (ChangesList_constructor (no_selection [file_B])) (f_id file_B) True =
     Inr (ChangesList_constructor (no_selection [file_B])) \<and>
   onOpenChanged (ChangesList_constructor (no_selection [file_B])) ''constructor'' True =
     Inr (ChangesList_constructor (no_selection [file_B])) \<and>
   onOpenChanged (ChangesList_constructor (no_selection [file_B])) ''nope'' True = Inl TypeError"
proof -
  have a: "map_of (files (state (ChangesList_constructor (no_selection [file_B])))) (f_id file_B) =
      Some (FileChange (file_B\<lparr>f_index := 3\<rparr>))"
    by code_simp
  have b: "map_of (files (state (ChangesList_constructor (no_selection [file_B])))) ''nope'' = None"
    by code_simp
  have c: "map_of (files (state (ChangesList_constructor (no_selection [file_B])))) ''constructor'' = None"
    by code_simp
  have d: "''nope'' \<notin> set Object_prototype_names" "''constructor'' \<in> set Object_prototype_names"
    by (simp_all add: Object_prototype_names_def)
  show ?thesis
    using toggle_absent_or_file [of "ChangesList_constructor (no_selection [file_B])" "f_id file_B" True]
      toggle_absent_or_file [of "ChangesList_constructor (no_selection [file_B])" "''nope''" True]
      toggle_absent_or_file [of "ChangesList_constructor (no_selection [file_B])" "''constructor''" True]
      a b c d
    by blast
qed

section \<open>Claims about one synthesis pass\<close>



subsection \<open>One change record with the parts \<^verbatim>\<open>doc.sketch\<close>, \<^verbatim>\<open>page1\<close>, \<^verbatim>\<open>layer1\<close>\<close>

lemma upt_length_3: "[0..<length [a, b, c]] = [0, 1, 2]"
  by (simp add: upt_rec)

lemma scenario_B_step0:
  "forEach_body None f [] [''doc.sketch'', ''page1'', ''layer1''] init_state 0 =
    \<lparr> prev = [(''doc.sketch'', FakePart (part_doc f))], fakePartsAcc = [(''doc.sketch'', part_doc f)],
      parentPartChange = Some (part_doc f), index = 1 \<rparr>"
  by (simp add: forEach_body_eq skips_def init_state_def reset_parent_def new_part_def part_ident_def
      parent_at_def opened_of_def part_doc_def status_B_def)

lemma scenario_B_step1:
  "forEach_body None f [] [''doc.sketch'', ''page1'', ''layer1'']
    \<lparr> prev = [(''doc.sketch'', FakePart (part_doc f))], fakePartsAcc = [(''doc.sketch'', part_doc f)],
      parentPartChange = Some (part_doc f), index = 1 \<rparr> 1 =
    \<lparr> prev = [(''doc.sketch'', FakePart (part_doc f)), (''doc.sketch/page1'', FakePart (part_page1 f))],
      fakePartsAcc = [(''doc.sketch'', part_doc f), (''doc.sketch/page1'', part_page1 f)],
      parentPartChange = Some (part_page1 f), index = 2 \<rparr>"
  by (simp add: forEach_body_eq skips_def reset_parent_def new_part_def part_ident_def parent_at_def
      opened_of_def part_doc_def part_page1_def status_B_def)

lemma scenario_B_step2:
  "forEach_body None f [] [''doc.sketch'', ''page1'', ''layer1'']
    \<lparr> prev = [(''doc.sketch'', FakePart (part_doc f)), (''doc.sketch/page1'', FakePart (part_page1 f))],
      fakePartsAcc = [(''doc.sketch'', part_doc f), (''doc.sketch/page1'', part_page1 f)],
      parentPartChange = Some (part_page1 f), index = 2 \<rparr> 2 =
    \<lparr> prev = [(''doc.sketch'', FakePart (part_doc f)), (''doc.sketch/page1'', FakePart (part_page1 f)),
              (''doc.sketch/page1/layer1'', FakePart (part_layer1 f))],
      fakePartsAcc = [(''doc.sketch'', part_doc f), (''doc.sketch/page1'', part_page1 f),
              (''doc.sketch/page1/layer1'', part_layer1 f)],
      parentPartChange = Some (part_layer1 f), index = 3 \<rparr>"
  by (simp add: forEach_body_eq skips_def reset_parent_def new_part_def part_ident_def parent_at_def
      opened_of_def part_doc_def part_page1_def part_layer1_def status_B_def)

lemma scenario_B_parts:
  "forEach_parts None f [] [''doc.sketch'', ''page1'', ''layer1''] init_state =
    \<lparr> prev = [(''doc.sketch'', FakePart (part_doc f)), (''doc.sketch/page1'', FakePart (part_page1 f)),
              (''doc.sketch/page1/layer1'', FakePart (part_layer1 f))],
      fakePartsAcc = [(''doc.sketch'', part_doc f), (''doc.sketch/page1'', part_page1 f),
              (''doc.sketch/page1/layer1'', part_layer1 f)],
      parentPartChange = Some (part_layer1 f), index = 3 \<rparr>"
  by (simp only: forEach_parts_def upt_length_3 fold_simps scenario_B_step0 scenario_B_step1
      scenario_B_step2)

text \<open>
  C3, as stated, fails: for one such change record and no previous table the part
  \<^verbatim>\<open>doc.sketch/page1\<close> is shown, there is a third part \<^verbatim>\<open>doc.sketch/page1/layer1\<close>,
  and the projection has two rows.
\<close>

theorem scenario_B_counterexample:
  "map (\<lambda>n. (node_id n, node_shown n)) (map snd (getFileList [file_B] None)) =
     [(''doc.sketch'', True), (''doc.sketch/page1'', True), (''doc.sketch/page1/layer1'', False),
      (f_id file_B, False)] \<and>
   map node_id (getOpenedFilesList (getFileList [file_B] None)) = [''doc.sketch'', ''doc.sketch/page1''] \<and>
   map node_id (getOpenedFilesList (getFileList [file_B] None)) \<noteq> [''doc.sketch'']"
  by code_simp

text \<open>
  C3, amended.  For one change record with a truthy \<^verbatim>\<open>sketchFile\<close>, the parts
  \<^verbatim>\<open>["doc.sketch", "page1", "layer1"]\<close> and an \<^verbatim>\<open>id\<close> that is none of the three part
  identifiers, and no previous table, the table holds, in this order, the part
  \<^verbatim>\<open>doc.sketch\<close> (depth 0, opened, shown), the part \<^verbatim>\<open>doc.sketch/page1\<close> (depth 1, not
  opened, shown), the part \<^verbatim>\<open>doc.sketch/page1/layer1\<close> (depth 2, not opened, not shown)
  and the change record (not shown), with the indices 0 to 3; the projection is the
  two rows \<^verbatim>\<open>doc.sketch\<close>, \<^verbatim>\<open>doc.sketch/page1\<close>.
\<close>

theorem scenario_B:
  assumes "f_parts f = Some [''doc.sketch'', ''page1'', ''layer1'']" and "f_sketchFile f"
    and "f_id f \<notin> {''doc.sketch'', ''doc.sketch/page1'', ''doc.sketch/page1/layer1''}"
  shows "getFileList [f] None = table_B f \<and>
         getOpenedFilesList (getFileList [f] None) = [FakePart (part_doc f), FakePart (part_page1 f)]"
proof -
  have e: "expands f" using assms by (simp add: expands_def)
  have p: "parts_of f = [''doc.sketch'', ''page1'', ''layer1'']" using assms by (simp add: parts_of_def)
  have n: "''doc.sketch'' \<noteq> f_id f" "''doc.sketch/page1'' \<noteq> f_id f"
    "''doc.sketch/page1/layer1'' \<noteq> f_id f"
    using assms(3) by auto
  have "fst (reduce_body None None init_state f) =
    \<lparr> prev = table_B f,
      fakePartsAcc = [(''doc.sketch'', part_doc f), (''doc.sketch/page1'', part_page1 f),
              (''doc.sketch/page1/layer1'', part_layer1 f)],
      parentPartChange = Some (part_layer1 f), index = 4 \<rparr>"
    unfolding reduce_body_expands [OF e] p previous_parts_def option.case scenario_B_parts
    using n
    by (simp add: fst_store_file file_parent_def file_shown_def table_B_def part_layer1_def)
  then have t: "getFileList [f] None = table_B f"
    by (simp add: getFileList_def fst_reduce_files_Cons del: reduce_files.simps(2))
  show ?thesis unfolding t
    by (simp add: getOpenedFilesList_def table_B_def part_doc_def part_page1_def part_layer1_def)
qed

theorem scenario_B_witness:
  "getFileList [file_B] None = table_B file_B \<and>
   getOpenedFilesList (getFileList [file_B] None) =
     [FakePart (part_doc file_B), FakePart (part_page1 file_B)]"
proof -
  have a: "f_parts file_B = Some [''doc.sketch'', ''page1'', ''layer1'']" and b: "f_sketchFile file_B"
    and c: "f_id file_B \<notin> {''doc.sketch'', ''doc.sketch/page1'', ''doc.sketch/page1/layer1''}"
    by (simp_all add: file_B_def)
  show ?thesis by (rule scenario_B [OF a b c])
qed

section \<open>The indices of a pass\<close>

lemma reduce_body_previous_cong:
  "previous_parts pf = previous_parts pf' \<Longrightarrow>
   reduce_body oldList pf s f = reduce_body oldList pf' s f"
  by (cases "expands f") (simp_all add: reduce_body_expands reduce_body_plain)

lemma previous_parts_snd_reduce_body [simp]:
  "previous_parts (Some (snd (reduce_body oldList pf s f))) = previous_parts (Some f)"
  by (simp add: previous_parts_def)

lemma fst_reduce_files: "fst (reduce_files oldList pf s fs) = run_files oldList pf s fs"
proof (induction fs arbitrary: pf s)
  case Nil
  then show ?case by simp
next
  case (Cons f fs)
  have "fst (reduce_files oldList (Some (snd (reduce_body oldList pf s f))) s' fs) =
        fst (reduce_files oldList (Some f) s' fs)" for s'
    by (cases fs)
       (simp_all add: fst_reduce_files_Cons
          reduce_body_previous_cong [OF previous_parts_snd_reduce_body] del: reduce_files.simps(2))
  then show ?case unfolding fst_reduce_files_Cons by (simp add: Cons.IH)
qed

lemma getFileList_run: "getFileList changes oldList = prev (run_files oldList None init_state changes)"
  by (simp add: getFileList_def fst_reduce_files)

lemmas eval_pass = getFileList_run run_files.simps reduce_body_expands reduce_body_plain expands_def parts_of_def
  previous_parts_def file_shown_def file_parent_def fst_store_file forEach_parts_def forEach_body_eq
  skips_def reset_parent_def new_part_def part_ident_def parent_at_def attach_status_def opened_of_def
  init_state_def upt_rec

lemma update_fresh: "k \<notin> set (map fst al) \<Longrightarrow> AList.update k v al = al @ [(k, v)]"
  by (induction al) auto

lemma map_snd_update_same:
  "map_of al k = Some v \<Longrightarrow> h v' = h v \<Longrightarrow> map (h \<circ> snd) (AList.update k v' al) = map (h \<circ> snd) al"
  by (induction al) (auto split: if_splits)

lemma map_fst_update_present:
  "map_of al k = Some v \<Longrightarrow> map fst (AList.update k v' al) = map fst al"
  by (induction al) (auto split: if_splits)

lemma attach_status_keys [simp]: "map fst (attach_status f k tbl) = map fst tbl"
  by (auto simp: attach_status_def map_fst_update_present
      split: option.splits TFileOrSketchPartChange.splits)

lemma attach_status_index [simp]: "indices (attach_status f k tbl) = indices tbl"
  by (auto simp: indices_def attach_status_def map_snd_update_same
      split: option.splits TFileOrSketchPartChange.splits)

lemma indices_append [simp]: "indices (tbl @ [(k, v)]) = indices tbl @ [node_index v]"
  by (simp add: indices_def)

lemma attach_status_length [simp]: "length (attach_status f k tbl) = length tbl"
  using attach_status_keys [of f k tbl] by (metis length_map)

lemma new_part_index [simp]: "p_index (new_part oldList f arr i s) = index s"
  by (simp add: new_part_def)

(* the fresh pass *)
lemma forEach_fresh:
  assumes "counted s" and "map fst (prev s) = ws"
    and "distinct (ws @ created_ids pp arr xs)"
  shows "counted (fold (\<lambda>i s'. forEach_body oldList f pp arr s' i) xs s) \<and>
         map fst (prev (fold (\<lambda>i s'. forEach_body oldList f pp arr s' i) xs s)) = ws @ created_ids pp arr xs"
  using assms
proof (induction xs arbitrary: s ws)
  case Nil
  then show ?case by (simp add: created_ids_def)
next
  case (Cons i xs)
  show ?case
  proof (cases "skips pp arr i")
    case True
    have c: "counted (forEach_body oldList f pp arr s i)"
      using Cons.prems(1) by (simp add: forEach_body_eq True counted_def)
    have k: "map fst (prev (forEach_body oldList f pp arr s i)) = ws"
      using Cons.prems(2) by (simp add: forEach_body_eq True)
    have d: "distinct (ws @ created_ids pp arr xs)"
      using Cons.prems(3) True by (simp add: created_ids_def)
    from Cons.IH [OF c k d] show ?thesis using True by (simp add: created_ids_def)
  next
    case False
    have fr: "part_ident arr i \<notin> set (map fst (prev s))"
      using Cons.prems(2,3) False by (simp add: created_ids_def)
    have c: "counted (forEach_body oldList f pp arr s i)"
      using Cons.prems(1) by (simp add: forEach_body_eq False counted_def update_fresh [OF fr])
    have k: "map fst (prev (forEach_body oldList f pp arr s i)) = ws @ [part_ident arr i]"
      using Cons.prems(2) by (simp add: forEach_body_eq False update_fresh [OF fr])
    have d: "distinct ((ws @ [part_ident arr i]) @ created_ids pp arr xs)"
      using Cons.prems(3) False by (simp add: created_ids_def)
    from Cons.IH [OF c k d] show ?thesis using False by (simp add: created_ids_def)
  qed
qed

lemma store_file_fresh:
  assumes "counted s" and "map fst (prev s) = ws" and "f_id f \<notin> set ws"
  shows "counted (fst (store_file f sh s)) \<and> map fst (prev (fst (store_file f sh s))) = ws @ [f_id f]"
proof -
  have fr: "f_id f \<notin> set (map fst (prev s))" using assms(2,3) by simp
  show ?thesis using assms(1,2)
    by (simp add: fst_store_file update_fresh [OF fr] counted_def)
qed

lemma counted_parent [simp]: "counted (s\<lparr>parentPartChange := x\<rparr>) = counted s"
  by (simp add: counted_def)

lemma reduce_body_fresh:
  assumes "counted s" and "map fst (prev s) = ws" and "distinct (ws @ stored_by pf f)"
  shows "counted (fst (reduce_body oldList pf s f)) \<and>
         map fst (prev (fst (reduce_body oldList pf s f))) = ws @ stored_by pf f"
proof (cases "expands f")
  case True
  define s1 where "s1 = forEach_parts oldList f (previous_parts pf) (parts_of f) s"
  define cr where "cr = created_ids (previous_parts pf) (parts_of f) [0..<length (parts_of f)]"
  have d: "distinct (ws @ cr)" and n: "f_id f \<notin> set (ws @ cr)"
    using assms(3) True by (auto simp: stored_by_def cr_def)
  have a: "counted s1 \<and> map fst (prev s1) = ws @ cr"
    unfolding s1_def forEach_parts_def cr_def
    by (rule forEach_fresh [OF assms(1,2)]) (use d in \<open>simp add: cr_def\<close>)
  have "counted (fst (store_file f (file_shown s1 (parts_of f)) (s1\<lparr>parentPartChange := file_parent s1 (parts_of f)\<rparr>))) \<and>
        map fst (prev (fst (store_file f (file_shown s1 (parts_of f)) (s1\<lparr>parentPartChange := file_parent s1 (parts_of f)\<rparr>)))) = (ws @ cr) @ [f_id f]"
    by (rule store_file_fresh) (use a n in auto)
  then show ?thesis
    by (simp add: reduce_body_expands [OF True] s1_def stored_by_def True cr_def)
next
  case False
  have "f_id f \<notin> set ws" using assms(3) False by (simp add: stored_by_def)
  from store_file_fresh [OF assms(1,2) this] show ?thesis
    by (simp add: reduce_body_plain [OF False] stored_by_def False)
qed

lemma expands_snd_reduce_body [simp]:
  "expands (snd (reduce_body oldList pf s f)) = expands f"
proof -
  obtain sh ix where "snd (reduce_body oldList pf s f) = f\<lparr>f_shown := sh, f_index := ix\<rparr>"
    using snd_reduce_body [of oldList pf s f] by auto
  then show ?thesis by (simp add: expands_def split: option.split)
qed

lemma f_id_snd_reduce_body [simp]:
  "f_id (snd (reduce_body oldList pf s f)) = f_id f"
  using snd_reduce_body [of oldList pf s f] by auto

lemma stored_by_previous_cong:
  "parts_of pf' = parts_of pf \<Longrightarrow> stored_by (Some pf') f = stored_by (Some pf) f"
  by (simp add: stored_by_def previous_parts_def)

lemma stored_ids_previous_cong:
  "parts_of pf' = parts_of pf \<Longrightarrow> stored_ids (Some pf') fs = stored_ids (Some pf) fs"
  by (cases fs) (simp_all add: stored_by_def previous_parts_def)

lemma reduce_files_fresh:
  assumes "counted s" and "map fst (prev s) = ws" and "distinct (ws @ stored_ids pf fs)"
  shows "counted (fst (reduce_files oldList pf s fs)) \<and>
         map fst (prev (fst (reduce_files oldList pf s fs))) = ws @ stored_ids pf fs"
  using assms
proof (induction fs arbitrary: s ws pf)
  case Nil
  then show ?case by simp
next
  case (Cons f fs)
  let ?s = "fst (reduce_body oldList pf s f)" and ?f = "snd (reduce_body oldList pf s f)"
  have e: "stored_ids (Some ?f) fs = stored_ids (Some f) fs"
    by (rule stored_ids_previous_cong) simp
  have d1: "distinct (ws @ stored_by pf f)" using Cons.prems(3) by auto
  have a: "counted ?s \<and> map fst (prev ?s) = ws @ stored_by pf f"
    by (rule reduce_body_fresh [OF Cons.prems(1,2) d1])
  have d2: "distinct ((ws @ stored_by pf f) @ stored_ids (Some ?f) fs)"
    using Cons.prems(3) by (auto simp: e)
  from Cons.IH [OF conjunct1 [OF a] conjunct2 [OF a] d2] show ?case
    unfolding fst_reduce_files_Cons by (simp add: e)
qed

(* unconditional: indices never repeat *)
lemma set_indices_update:
  "set (indices (AList.update k v al)) \<subseteq> insert (node_index v) (set (indices al))"
  unfolding indices_def by (induction al) auto

lemma distinct_indices_update:
  "distinct (indices al) \<Longrightarrow> node_index v \<notin> set (indices al) \<Longrightarrow>
   distinct (indices (AList.update k v al))"
proof (induction al)
  case Nil
  then show ?case by (simp add: indices_def)
next
  case (Cons a al)
  show ?case
  proof (cases "fst a = k")
    case True
    then show ?thesis using Cons.prems by (simp add: indices_def)
  next
    case False
    have "node_index (snd a) \<notin> set (indices (AList.update k v al))"
      using set_indices_update [of k v al] Cons.prems by (auto simp: indices_def)
    then show ?thesis using False Cons by (simp add: indices_def)
  qed
qed

lemma bounded_store:
  assumes "bounded s" and "node_index v = index s"
    and "prev s' = AList.update k v (prev s)" and "index s' = index s + 1"
  shows "bounded s'"
proof -
  have n: "node_index v \<notin> set (indices (prev s))"
    using assms(1,2) by (auto simp: bounded_def)
  have d: "distinct (indices (prev s'))"
    unfolding assms(3) by (rule distinct_indices_update) (use assms(1) n in \<open>auto simp: bounded_def\<close>)
  have "\<forall>x \<in> set (indices (prev s')). x < index s'"
    unfolding assms(3,4) using set_indices_update [of k v "prev s"] assms(1,2)
    by (fastforce simp: bounded_def)
  with d show ?thesis by (simp add: bounded_def)
qed

lemma bounded_forEach_body:
  "bounded s \<Longrightarrow> bounded (forEach_body oldList f pp arr s i)"
proof (cases "skips pp arr i")
  case True
  assume "bounded s"
  then show ?thesis by (simp add: forEach_body_eq True bounded_def)
next
  case False
  assume b: "bounded s"
  show ?thesis
    by (rule bounded_store [OF b, where v = "FakePart (new_part oldList f arr i (reset_parent i s))"
          and k = "part_ident arr i"])
       (simp_all add: forEach_body_eq False)
qed

lemma bounded_reduce_body:
  assumes "bounded s"
  shows "bounded (fst (reduce_body oldList pf s f))"
proof (cases "expands f")
  case True
  define s1 where "s1 = forEach_parts oldList f (previous_parts pf) (parts_of f) s"
  have b: "bounded (s1\<lparr>parentPartChange := file_parent s1 (parts_of f)\<rparr>)"
    unfolding s1_def
    using forEach_parts_preserves [where P = bounded, OF assms bounded_forEach_body]
    by (simp add: bounded_def)
  show ?thesis
    unfolding reduce_body_expands [OF True] s1_def [symmetric]
    by (rule bounded_store [OF b]) (simp_all add: fst_store_file)
next
  case False
  show ?thesis
    unfolding reduce_body_plain [OF False]
    by (rule bounded_store [OF assms]) (simp_all add: fst_store_file)
qed

lemma bounded_getFileList: "distinct (indices (getFileList changes oldList))"
proof -
  have "bounded (fst (reduce_files oldList None init_state changes))"
  proof (rule reduce_files_preserves [where P = bounded])
    show "bounded init_state" by (simp add: bounded_def init_state_def indices_def)
  qed (rule bounded_reduce_body)
  then show ?thesis by (simp add: bounded_def getFileList_def)
qed

lemma counted_getFileList:
  assumes "distinct (stored_ids None changes)"
  shows "indices (getFileList changes oldList) = [0..<length (getFileList changes oldList)]"
    and "map fst (getFileList changes oldList) = stored_ids None changes"
proof -
  have "counted (fst (reduce_files oldList None init_state changes)) \<and>
        map fst (prev (fst (reduce_files oldList None init_state changes))) = [] @ stored_ids None changes"
    by (rule reduce_files_fresh) (use assms in \<open>simp_all add: counted_def init_state_def indices_def\<close>)
  then show "indices (getFileList changes oldList) = [0..<length (getFileList changes oldList)]"
    and "map fst (getFileList changes oldList) = stored_ids None changes"
    by (simp_all add: counted_def getFileList_def)
qed

text \<open>
  C6, as stated, fails: when a change record of another document stands between two
  records of \<^verbatim>\<open>a.sketch\<close>, the part \<^verbatim>\<open>a.sketch\<close> is synthesized twice, the second
  taking the place of the first in the table; the five nodes of the table have the
  indices 4, 1, 2, 3, 5.
\<close>

theorem index_contiguity_counterexample:
  "map fst (getFileList [file_A1, file_Z, file_A2] None) =
     [''a.sketch'', f_id file_A1, ''z.sketch'', f_id file_Z, f_id file_A2] \<and>
   indices (getFileList [file_A1, file_Z, file_A2] None) = [4, 1, 2, 3, 5] \<and>
   set (indices (getFileList [file_A1, file_Z, file_A2] None)) \<noteq>
     {0..<length (getFileList [file_A1, file_Z, file_A2] None)}"
proof -
  have k: "map fst (getFileList [file_A1, file_Z, file_A2] None) =
     [''a.sketch'', f_id file_A1, ''z.sketch'', f_id file_Z, f_id file_A2]"
    by (simp add: eval_pass file_A1_def file_A2_def file_Z_def)
  have a: "indices (getFileList [file_A1, file_Z, file_A2] None) = [4, 1, 2, 3, 5]"
    by (simp add: eval_pass indices_def file_A1_def file_A2_def file_Z_def)
  have l: "length (getFileList [file_A1, file_Z, file_A2] None) = 5"
    using arg_cong [OF k, of length] by simp
  have "(0::nat) \<notin> set (indices (getFileList [file_A1, file_Z, file_A2] None))"
    unfolding a by simp
  moreover have "(0::nat) \<in> {0..<length (getFileList [file_A1, file_Z, file_A2] None)}"
    unfolding l by simp
  ultimately show ?thesis using a k by metis
qed

text \<open>
  C6, amended.  In the table of one pass no two nodes have the same index.  When no
  identifier is stored twice during the pass (\<open>stored_ids\<close> is distinct), the table
  holds the stored identifiers in the order of the pass and the indices of its nodes,
  shown or not, are exactly 0, 1, ..., n - 1 in that order, n the number of nodes.
\<close>

theorem index_contiguity:
  "distinct (indices (getFileList changes oldList)) \<and>
   (distinct (stored_ids None changes) \<longrightarrow>
      map fst (getFileList changes oldList) = stored_ids None changes \<and>
      indices (getFileList changes oldList) = [0..<length (getFileList changes oldList)] \<and>
      set (indices (getFileList changes oldList)) = {0..<length (getFileList changes oldList)})"
proof -
  have "set (indices (getFileList changes oldList)) = {0..<length (getFileList changes oldList)}"
    if "indices (getFileList changes oldList) = [0..<length (getFileList changes oldList)]"
    using arg_cong [OF that, of set] by simp
  then show ?thesis
    using bounded_getFileList [of changes oldList] counted_getFileList [of changes oldList]
    by blast
qed

theorem index_contiguity_witness:
  "distinct (stored_ids None [file_A1, file_A2, file_Z]) \<and>
   indices (getFileList [file_A1, file_A2, file_Z] None) = [0, 1, 2, 3, 4] \<and>
   length (getFileList [file_A1, file_A2, file_Z] None) = 5"
proof -
  have d: "distinct (stored_ids None [file_A1, file_A2, file_Z])"
    by (simp add: stored_by_def created_ids_def eval_pass file_A1_def file_A2_def file_Z_def)
  have l: "length (getFileList [file_A1, file_A2, file_Z] None) = 5"
    by (simp add: eval_pass file_A1_def file_A2_def file_Z_def)
  have u: "[0..<5] = [0, 1, 2, 3, 4]" by (simp add: upt_rec)
  show ?thesis
    using index_contiguity [of "[file_A1, file_A2, file_Z]" None] d l u by simp
qed

section \<open>Conflict status: the first conflicted record wins\<close>

subsection \<open>Joined prefixes\<close>

lemma join_snoc: "join (xs @ [x]) = (if xs = [] then x else join xs @ ''/'' @ x)"
  by (induction xs rule: join.induct) auto

lemma join_take_Suc:
  "i < length arr \<Longrightarrow>
   join (take (Suc i) arr) = (if i = 0 then arr ! 0 else join (take i arr) @ ''/'' @ arr ! i)"
  by (auto simp: take_Suc_conv_app_nth join_snoc)

lemma join_nonempty: "xs \<noteq> [] \<Longrightarrow> hd xs \<noteq> [] \<Longrightarrow> join xs \<noteq> []"
  by (induction xs rule: join.induct) auto

lemma part_ident_join:
  assumes "i < length arr" and "hd arr \<noteq> []"
  shows "part_ident arr i = join (take (Suc i) arr)"
proof (cases i)
  case 0
  then show ?thesis using assms by (simp add: part_ident_def join_take_Suc)
next
  case (Suc j)
  have "take i arr \<noteq> []" using assms Suc by auto
  moreover have "hd (take i arr) = hd arr" using Suc by (cases arr) auto
  ultimately have "join (take i arr) \<noteq> []" using assms(2) by (simp add: join_nonempty)
  then show ?thesis using assms Suc by (simp add: part_ident_def join_take_Suc)
qed

lemma length_join_take_mono:
  assumes "i < j" and "j < length arr"
  shows "length (join (take (Suc i) arr)) < length (join (take (Suc j) arr))"
  using assms
proof (induction j)
  case 0
  then show ?case by simp
next
  case (Suc j)
  have s: "length (join (take (Suc j) arr)) < length (join (take (Suc (Suc j)) arr))"
    using Suc.prems by (simp add: join_take_Suc [of "Suc j"])
  show ?case
  proof (cases "i = j")
    case True
    then show ?thesis using s by simp
  next
    case False
    then have "length (join (take (Suc i) arr)) < length (join (take (Suc j) arr))"
      using Suc by simp
    then show ?thesis using s by simp
  qed
qed

lemma join_take_inj:
  assumes "i < length arr" and "j < length arr" and "i \<noteq> j"
  shows "join (take (Suc i) arr) \<noteq> join (take (Suc j) arr)"
proof (cases "i < j")
  case True
  from length_join_take_mono [OF True assms(2)] show ?thesis by auto
next
  case False
  then have "j < i" using assms(3) by simp
  from length_join_take_mono [OF this assms(1)] show ?thesis by auto
qed

subsection \<open>The effect of one position on the status under an identifier\<close>

lemma status_at_other:
  assumes "part_ident arr i \<noteq> k"
  shows "status_at (forEach_body oldList f pp arr s i) k = status_at s k"
  using assms
  by (simp add: forEach_body_eq status_at_def map_of_attach_status update_conv')

lemma status_at_skip:
  assumes "skips pp arr i" and "status_at s (part_ident arr i) = Some st"
  shows "status_at (forEach_body oldList f pp arr s i) (part_ident arr i) =
           Some (keep_first st (conflict_of f))"
  using assms
  by (auto simp: forEach_body_eq status_at_def map_of_attach_status keep_first_def conflict_of_def
      split: option.splits TFileOrSketchPartChange.splits)

lemma status_at_new:
  assumes "\<not> skips pp arr i"
  shows "status_at (forEach_body oldList f pp arr s i) (part_ident arr i) = Some (conflict_of f)"
  using assms
  by (simp add: forEach_body_eq status_at_def update_conv' new_part_def conflict_of_def)

lemma status_at_store_file:
  "f_id f \<noteq> k \<Longrightarrow> status_at (fst (store_file f sh s)) k = status_at s k"
  by (simp add: fst_store_file status_at_def update_conv')

lemma status_at_parent [simp]: "status_at (s\<lparr>parentPartChange := x\<rparr>) k = status_at s k"
  by (simp add: status_at_def)

lemma upt_split: "d < n \<Longrightarrow> [0..<n] = [0..<d] @ d # [Suc d..<n]"
  by (metis le_add2 le_add_same_cancel2 less_imp_add_positive upt_add_eq_append upt_conv_Cons)


lemma fold_status_at_other:
  assumes "\<forall>i \<in> set xs. part_ident arr i \<noteq> k"
  shows "status_at (fold (\<lambda>i s'. forEach_body oldList f pp arr s' i) xs s) k = status_at s k"
  using assms by (induction xs arbitrary: s) (simp_all add: status_at_other)

lemma forEach_status_at:
  assumes "d < length arr" and "hd arr \<noteq> []" and "k = part_ident arr d"
  shows "status_at (forEach_parts oldList f pp arr s) k =
           (if skips pp arr d
            then (case status_at s k of None \<Rightarrow> None | Some st \<Rightarrow> Some (keep_first st (conflict_of f)))
            else Some (conflict_of f))"
proof -
  let ?body = "\<lambda>i s'. forEach_body oldList f pp arr s' i"
  have other: "part_ident arr i \<noteq> k" if "i < length arr" "i \<noteq> d" for i
    using that assms join_take_inj [of i arr d] by (simp add: part_ident_join)
  have before: "\<forall>i \<in> set [0..<d]. part_ident arr i \<noteq> k"
    using other assms(1) by auto
  have after: "\<forall>i \<in> set [Suc d..<length arr]. part_ident arr i \<noteq> k"
    using other by auto
  define s1 where "s1 = fold ?body [0..<d] s"
  have a: "status_at s1 k = status_at s k"
    unfolding s1_def by (rule fold_status_at_other [OF before])
  have "forEach_parts oldList f pp arr s = fold ?body [Suc d..<length arr] (?body d s1)"
    by (simp add: forEach_parts_def upt_split [OF assms(1)] s1_def)
  then have b: "status_at (forEach_parts oldList f pp arr s) k = status_at (?body d s1) k"
    by (simp add: fold_status_at_other [OF after])
  show ?thesis
  proof (cases "skips pp arr d")
    case True
    show ?thesis
    proof (cases "status_at s k")
      case None
      then have "status_at (?body d s1) k = None"
        using a True
        by (auto simp: forEach_body_eq status_at_def map_of_attach_status assms(3)
            split: option.splits TFileOrSketchPartChange.splits)
      then show ?thesis using b True None by simp
    next
      case (Some st)
      then have "status_at s1 (part_ident arr d) = Some st" using a assms(3) by simp
      from status_at_skip [OF True this] show ?thesis using b True Some assms(3) by simp
    qed
  next
    case False
    from status_at_new [OF False] show ?thesis using b False assms(3) by simp
  qed
qed

lemma skips_shared_prefix:
  assumes "take (Suc d) pp = take (Suc d) arr" and "d < length arr"
  shows "skips pp arr d"
proof -
  have "length (take (Suc d) pp) = Suc d" using assms by simp
  then have l: "d < length pp" by simp
  have "take (Suc d) pp ! d = take (Suc d) arr ! d" using assms(1) by simp
  then show ?thesis using l by (simp add: skips_def)
qed

lemma part_ident_shared_prefix:
  assumes "take (Suc d) arr' = take (Suc d) arr" and "d < length arr" and "hd arr \<noteq> []"
  shows "d < length arr' \<and> hd arr' \<noteq> [] \<and> part_ident arr' d = part_ident arr d"
proof -
  have "length (take (Suc d) arr') = Suc d" using assms by simp
  then have l: "d < length arr'" by simp
  have "hd (take (Suc d) arr') = hd (take (Suc d) arr)" using assms(1) by simp
  then have h: "hd arr' = hd arr" using l assms(2) by (cases arr'; cases arr) auto
  show ?thesis using l h assms by (simp add: part_ident_join)
qed

lemma reduce_body_status_at:
  assumes "status_at s k = Some st"
    and "take (Suc d) (previous_parts pf) = take (Suc d) arr"
    and "take (Suc d) (parts_of h) = take (Suc d) arr"
    and "d < length arr" and "hd arr \<noteq> []" and "k = part_ident arr d" and "f_id h \<noteq> k"
  shows "status_at (fst (reduce_body oldList pf s h)) k =
           Some (keep_first st (if expands h then conflict_of h else None))"
proof (cases "expands h")
  case True
  have p: "d < length (parts_of h) \<and> hd (parts_of h) \<noteq> [] \<and> part_ident (parts_of h) d = part_ident arr d"
    by (rule part_ident_shared_prefix [OF assms(3,4,5)])
  have sk: "skips (previous_parts pf) (parts_of h) d"
    by (rule skips_shared_prefix) (use assms(2,3) p in simp_all)
  have "status_at (forEach_parts oldList h (previous_parts pf) (parts_of h) s) k =
      Some (keep_first st (conflict_of h))"
    using forEach_status_at [of d "parts_of h" k oldList h "previous_parts pf" s] p sk assms(1,6)
    by simp
  then show ?thesis
    using True assms(7) by (simp add: reduce_body_expands status_at_store_file)
next
  case False
  then show ?thesis
    using assms(1,7) by (simp add: reduce_body_plain status_at_store_file keep_first_def split: option.split)
qed

lemma first_conflict_Cons:
  "first_conflict (f # fs) = keep_first (if expands f then conflict_of f else None) (first_conflict fs)"
  by (simp add: first_conflict_def keep_first_def conflict_of_def)

lemma keep_first_assoc: "keep_first (keep_first a b) c = keep_first a (keep_first b c)"
  by (simp add: keep_first_def split: option.split)

lemma run_files_status_at:
  assumes "status_at s k = Some st"
    and "take (Suc d) (previous_parts pf) = take (Suc d) arr"
    and "\<forall>h \<in> set fs. take (Suc d) (parts_of h) = take (Suc d) arr \<and> f_id h \<noteq> k"
    and "d < length arr" and "hd arr \<noteq> []" and "k = part_ident arr d"
  shows "status_at (run_files oldList pf s fs) k = Some (keep_first st (first_conflict fs))"
  using assms(1,2,3)
proof (induction fs arbitrary: s pf st)
  case Nil
  then show ?case by (simp add: first_conflict_def keep_first_def split: option.split)
next
  case (Cons h fs)
  have a: "status_at (fst (reduce_body oldList pf s h)) k =
           Some (keep_first st (if expands h then conflict_of h else None))"
    by (rule reduce_body_status_at [OF Cons.prems(1,2) _ assms(4,5,6)]) (use Cons.prems(3) in auto)
  have b: "take (Suc d) (previous_parts (Some h)) = take (Suc d) arr"
    using Cons.prems(3) by (simp add: previous_parts_def)
  have c: "\<forall>h \<in> set fs. take (Suc d) (parts_of h) = take (Suc d) arr \<and> f_id h \<noteq> k"
    using Cons.prems(3) by simp
  from Cons.IH [OF a b c] show ?case
    by (simp add: first_conflict_Cons keep_first_assoc)
qed

text \<open>
  C9.  Take a record \<open>f\<close> for which the pass synthesizes the part at position \<open>d\<close>
  (the skip-if-unchanged rule does not fire there), followed by records \<open>fs\<close> that
  share this part, that is the first \<open>d + 1\<close> elements of \<^verbatim>\<open>parts\<close>, so that the rule
  skips the part for each of them; no record \<^verbatim>\<open>id\<close> is the identifier of the part.
  Then, whatever the pass has done before, after these records the part carries the
  status of the first of them that is \<^verbatim>\<open>Conflicted\<close> (and no status when none is): a
  conflicted record attaches its status only to a part that has none yet, and a later
  conflicted record never overwrites it.
\<close>

theorem first_conflict_wins:
  assumes "expands f" and "d < length (parts_of f)" and "hd (parts_of f) \<noteq> []"
    and "\<not> skips (previous_parts previousFile) (parts_of f) d"
    and "\<forall>h \<in> set fs. take (Suc d) (parts_of h) = take (Suc d) (parts_of f)"
    and "\<forall>h \<in> set (f # fs). f_id h \<noteq> part_ident (parts_of f) d"
  shows "\<exists>g. map_of (prev (fst (reduce_files oldList previousFile s (f # fs))))
                (part_ident (parts_of f) d) = Some (FakePart g) \<and>
              p_status g = first_conflict (f # fs)"
proof -
  define k where "k = part_ident (parts_of f) d"
  have "status_at (forEach_parts oldList f (previous_parts previousFile) (parts_of f) s) k =
      Some (conflict_of f)"
    using forEach_status_at [of d "parts_of f" k oldList f "previous_parts previousFile" s] assms(2,3,4)
    by (simp add: k_def)
  then have a: "status_at (fst (reduce_body oldList previousFile s f)) k = Some (conflict_of f)"
    using assms(1,6) by (simp add: reduce_body_expands status_at_store_file k_def)
  have b: "take (Suc d) (previous_parts (Some f)) = take (Suc d) (parts_of f)"
    by (simp add: previous_parts_def)
  have c: "\<forall>h \<in> set fs. take (Suc d) (parts_of h) = take (Suc d) (parts_of f) \<and> f_id h \<noteq> k"
    using assms(5,6) by (simp add: k_def)
  have "status_at (run_files oldList (Some f) (fst (reduce_body oldList previousFile s f)) fs) k =
      Some (keep_first (conflict_of f) (first_conflict fs))"
    by (rule run_files_status_at [OF a b c assms(2,3) k_def])
  then have "status_at (fst (reduce_files oldList previousFile s (f # fs))) k = Some (first_conflict (f # fs))"
    using assms(1) by (simp add: fst_reduce_files first_conflict_Cons del: reduce_files.simps(2))
  then show ?thesis
    unfolding k_def status_at_def by (auto split: option.splits TFileOrSketchPartChange.splits)
qed


theorem first_conflict_wins_witness:
  "status_at (fst (reduce_files None None init_state [file_C1, file_C2])) ''a.sketch/page1'' =
     Some (Some (f_status file_C1)) \<and>
   kind (f_status file_C2) = Conflicted \<and> f_status file_C2 \<noteq> f_status file_C1"
proof -
  have e: "expands file_C1" and l: "1 < length (parts_of file_C1)" and h: "hd (parts_of file_C1) \<noteq> []"
    and n: "\<not> skips (previous_parts None) (parts_of file_C1) 1"
    and p: "\<forall>h \<in> set [file_C2]. take (Suc 1) (parts_of h) = take (Suc 1) (parts_of file_C1)"
    and i: "\<forall>h \<in> set [file_C1, file_C2]. f_id h \<noteq> part_ident (parts_of file_C1) 1"
    by (simp_all add: expands_def parts_of_def previous_parts_def skips_def part_ident_def
        file_C1_def file_C2_def)
  have k: "part_ident (parts_of file_C1) 1 = ''a.sketch/page1''"
    by (simp add: part_ident_def parts_of_def file_C1_def)
  have f: "first_conflict [file_C1, file_C2] = Some (f_status file_C1)"
    by (simp add: first_conflict_def expands_def file_C1_def)
  show ?thesis
    using first_conflict_wins [OF e l h n p i, of None init_state]
    unfolding k f status_at_def
    by (auto simp: file_C1_def file_C2_def)
qed

section \<open>Which nodes are shown\<close>

lemma same_view_refl [simp]: "same_view n n"
  by (cases n) auto

lemma extends_attach: "extends T (attach_status f k T)"
  unfolding extends_def map_of_attach_status
  by (auto split: option.splits TFileOrSketchPartChange.splits)

lemma extends_fresh: "map_of T k = None \<Longrightarrow> extends T (AList.update k v T)"
  unfolding extends_def update_conv'
  by auto

lemma ok_part_extends:
  assumes "ok_part T g" and "extends T T'"
    and "p_opened g' = p_opened g" and "p_shown g' = p_shown g" and "p_parts g' = p_parts g"
  shows "ok_part T' g'"
proof (cases "p_parts g = []")
  case True
  then show ?thesis using assms by (simp add: ok_part_def)
next
  case False
  then obtain p where p: "map_of T (join (p_parts g)) = Some (FakePart p)"
    and sh: "p_shown g = (p_opened g \<or> p_opened p)"
    using assms(1) by (auto simp: ok_part_def split: option.splits TFileOrSketchPartChange.splits)
  from assms(2) p obtain n' where n: "map_of T' (join (p_parts g)) = Some n'" and v: "same_view (FakePart p) n'"
    unfolding extends_def by blast
  from v obtain p' where "n' = FakePart p'" and "p_opened p' = p_opened p"
    by (cases n') auto
  then show ?thesis using False n sh assms(3,4,5) by (simp add: ok_part_def)
qed

lemma ok_file_extends:
  assumes "ok_file T f" and "extends T T'"
  shows "ok_file T' f"
proof (cases "\<not> expands f \<or> parts_of f = [] \<or> length (parts_of f) = 1")
  case True
  then show ?thesis using assms(1) by (auto simp: ok_file_def)
next
  case False
  then obtain p where p: "map_of T (join (parts_of f)) = Some (FakePart p)"
    and sh: "f_shown f = p_opened p"
    using assms(1) by (auto simp: ok_file_def split: option.splits TFileOrSketchPartChange.splits)
  from assms(2) p obtain n' where n: "map_of T' (join (parts_of f)) = Some n'" and v: "same_view (FakePart p) n'"
    unfolding extends_def by blast
  from v obtain p' where "n' = FakePart p'" and "p_opened p' = p_opened p"
    by (cases n') auto
  then show ?thesis using False n sh by (simp add: ok_file_def)
qed

lemma ok_node_extends:
  assumes "ok_node T n" and "extends T T'" and "same_view n n'"
  shows "ok_node T' n'"
proof (cases n)
  case (FileChange f)
  then show ?thesis using assms ok_file_extends by (cases n') auto
next
  case (FakePart g)
  then obtain g' where "n' = FakePart g'" using assms(3) by (cases n') auto
  then show ?thesis using assms FakePart ok_part_extends [of T g T' g'] by auto
qed


lemma nodes_ok_extends:
  assumes "nodes_ok T" and "extends T T'"
    and "\<And>k n'. map_of T' k = Some n' \<Longrightarrow> map_of T k = None \<Longrightarrow> ok_node T' n'"
  shows "nodes_ok T'"
  unfolding nodes_ok_def
proof (intro allI impI)
  fix k n' assume a: "map_of T' k = Some n'"
  show "ok_node T' n'"
  proof (cases "map_of T k")
    case None
    then show ?thesis using assms(3) a by simp
  next
    case (Some n)
    with assms(2) a have "same_view n n'" unfolding extends_def by fastforce
    moreover have "ok_node T n" using assms(1) Some by (simp add: nodes_ok_def)
    ultimately show ?thesis using assms(2) ok_node_extends by blast
  qed
qed

lemma acc_fake_extends:
  assumes "acc_fake s" and "extends (prev s) T'" and "fakePartsAcc s' = fakePartsAcc s" and "prev s' = T'"
  shows "acc_fake s'"
  unfolding acc_fake_def assms(3,4)
proof (intro allI impI)
  fix k p assume a: "map_of (fakePartsAcc s) k = Some p"
  then obtain c where c: "k \<noteq> []" "p_id p = k" "map_of (prev s) k = Some (FakePart c)" "p_opened c = p_opened p"
    using assms(1) unfolding acc_fake_def by blast
  from assms(2) c(3) obtain n' where n: "map_of T' k = Some n'" and v: "same_view (FakePart c) n'"
    unfolding extends_def by blast
  from v obtain c' where "n' = FakePart c'" and "p_opened c' = p_opened c"
    by (cases n') auto
  then show "k \<noteq> [] \<and> p_id p = k \<and> (\<exists>c. map_of T' k = Some (FakePart c) \<and> p_opened c = p_opened p)"
    using c n by simp
qed

lemma attach_status_None: "map_of T k = None \<Longrightarrow> map_of (attach_status f k' T) k = None"
  by (auto simp: map_of_attach_status)

lemma join_take_nonempty: "i < length arr \<Longrightarrow> hd arr \<noteq> [] \<Longrightarrow> join (take (Suc i) arr) \<noteq> []"
  by (rule join_nonempty) (cases arr; simp)+

lemma parent_at_lookup:
  assumes "acc_parent s"
  shows "parent_at (reset_parent i s) i pk = map_of (fakePartsAcc s) pk"
proof (cases "i \<le> 1")
  case True
  then show ?thesis by (simp add: parent_at_def reset_parent_def)
next
  case False
  then have r: "reset_parent i s = s" by (simp add: reset_parent_def)
  show ?thesis
  proof (cases "parentPartChange s")
    case None
    then show ?thesis by (simp add: r parent_at_def)
  next
    case (Some q)
    then have "map_of (fakePartsAcc s) (p_id q) = Some q" using assms by (simp add: acc_parent_def)
    then show ?thesis using Some False by (auto simp: r parent_at_def)
  qed
qed

lemma acc_parent_reset: "acc_parent s \<Longrightarrow> acc_parent (reset_parent i s)"
  by (simp add: acc_parent_def reset_parent_def)

lemma pass_ok_skip:
  assumes "pass_ok s" and "skips pp arr i"
  shows "pass_ok (forEach_body oldList f pp arr s i)"
proof -
  let ?s = "(reset_parent i s)\<lparr>prev := attach_status f (part_ident arr i) (prev s)\<rparr>"
  have e: "forEach_body oldList f pp arr s i = ?s"
    using assms(2) by (simp add: forEach_body_eq)
  have a: "acc_fake ?s"
    by (rule acc_fake_extends [where s = s, OF _ extends_attach]) (use assms(1) in \<open>simp_all add: pass_ok_def\<close>)
  have b: "acc_parent ?s"
    using assms(1) acc_parent_reset [of s i] by (simp add: pass_ok_def acc_parent_def)
  have c: "nodes_ok (prev ?s)"
    using nodes_ok_extends [OF _ extends_attach, of "prev s" f "part_ident arr i"] assms(1)
    by (simp add: pass_ok_def attach_status_None)
  show ?thesis unfolding e pass_ok_def using a b c by simp
qed

lemma acc_fake_no_empty: "acc_fake s \<Longrightarrow> map_of (fakePartsAcc s) [] = None"
  unfolding acc_fake_def by (cases "map_of (fakePartsAcc s) []") auto

lemma pass_ok_new:
  assumes "pass_ok s" and "\<not> skips pp arr i" and "i < length arr" and "hd arr \<noteq> []"
    and fresh: "map_of (prev s) (part_ident arr i) = None"
    and parent: "0 < i \<Longrightarrow> map_of (fakePartsAcc s) (join (take i arr)) \<noteq> None"
  shows "pass_ok (forEach_body oldList f pp arr s i)"
proof -
  define k where "k = part_ident arr i"
  define new where "new = new_part oldList f arr i (reset_parent i s)"
  let ?s = "(reset_parent i s)\<lparr>prev := AList.update k (FakePart new) (prev s),
      fakePartsAcc := AList.update k new (fakePartsAcc s),
      parentPartChange := Some new, index := index s + 1\<rparr>"
  have e: "forEach_body oldList f pp arr s i = ?s"
    using assms(2) by (simp add: forEach_body_eq k_def new_def)
  have af: "acc_fake s" and ap: "acc_parent s" and no: "nodes_ok (prev s)"
    using assms(1) by (simp_all add: pass_ok_def)
  have kne: "k \<noteq> []"
    unfolding k_def using assms(3,4) by (simp add: part_ident_join join_take_nonempty)
  have ext: "extends (prev s) (AList.update k (FakePart new) (prev s))"
    by (rule extends_fresh) (use fresh in \<open>simp add: k_def\<close>)
  have shown: "p_shown new =
      (p_opened new \<or> (case map_of (fakePartsAcc s) (join (take i arr)) of None \<Rightarrow> True | Some p \<Rightarrow> p_opened p))"
    by (simp add: new_def new_part_def parent_at_lookup [OF ap])
  have a: "acc_fake ?s"
    unfolding acc_fake_def
  proof (intro allI impI)
    fix k' p assume h: "map_of (fakePartsAcc ?s) k' = Some p"
    show "k' \<noteq> [] \<and> p_id p = k' \<and> (\<exists>c. map_of (prev ?s) k' = Some (FakePart c) \<and> p_opened c = p_opened p)"
    proof (cases "k' = k")
      case True
      then have "p = new" using h by (simp add: update_conv')
      then show ?thesis using True kne by (simp add: update_conv' new_def new_part_def k_def)
    next
      case False
      then have "map_of (fakePartsAcc s) k' = Some p" using h by (simp add: update_conv')
      then show ?thesis using af False unfolding acc_fake_def by (simp add: update_conv')
    qed
  qed
  have b: "acc_parent ?s"
    by (simp add: acc_parent_def update_conv' new_def new_part_def k_def)
  have okn: "ok_part (AList.update k (FakePart new) (prev s)) new"
  proof (cases "i = 0")
    case True
    then show ?thesis
      using shown acc_fake_no_empty [OF af] by (simp add: ok_part_def new_def new_part_def)
  next
    case False
    then obtain p where p: "map_of (fakePartsAcc s) (join (take i arr)) = Some p"
      using parent by auto
    then obtain c where c: "map_of (prev s) (join (take i arr)) = Some (FakePart c)" "p_opened c = p_opened p"
      using af unfolding acc_fake_def by blast
    have "join (take i arr) \<noteq> k" using c(1) fresh by (auto simp: k_def)
    moreover have "p_parts new = take i arr" "take i arr \<noteq> []"
      using False assms(3) by (auto simp: new_def new_part_def)
    ultimately show ?thesis
      using shown p c by (simp add: ok_part_def update_conv')
  qed
  have c: "nodes_ok (prev ?s)"
  proof -
    have "nodes_ok (AList.update k (FakePart new) (prev s))"
    proof (rule nodes_ok_extends [OF no ext])
      fix k' n' assume "map_of (AList.update k (FakePart new) (prev s)) k' = Some n'"
        and "map_of (prev s) k' = None"
      then have "n' = FakePart new" by (auto simp: update_conv' split: if_splits)
      then show "ok_node (AList.update k (FakePart new) (prev s)) n'" using okn by simp
    qed
    then show ?thesis by simp
  qed
  show ?thesis unfolding e pass_ok_def using a b c by simp
qed

lemma fakePartsAcc_forEach_body:
  "fakePartsAcc (forEach_body oldList f pp arr s i) =
     (if skips pp arr i then fakePartsAcc s
      else AList.update (part_ident arr i) (new_part oldList f arr i (reset_parent i s)) (fakePartsAcc s))"
  by (simp add: forEach_body_eq)

lemma prev_forEach_body:
  "prev (forEach_body oldList f pp arr s i) =
     (if skips pp arr i then attach_status f (part_ident arr i) (prev s)
      else AList.update (part_ident arr i) (FakePart (new_part oldList f arr i (reset_parent i s))) (prev s))"
  by (simp add: forEach_body_eq)

lemma fakePartsAcc_mono:
  "map_of (fakePartsAcc s) k \<noteq> None \<Longrightarrow> map_of (fakePartsAcc (forEach_body oldList f pp arr s i)) k \<noteq> None"
  by (simp add: fakePartsAcc_forEach_body update_conv')

lemma created_ids_append:
  "created_ids pp arr (xs @ ys) = created_ids pp arr xs @ created_ids pp arr ys"
  by (simp add: created_ids_def)

lemma created_ids_single:
  "created_ids pp arr [m] = (if skips pp arr m then [] else [part_ident arr m])"
  by (simp add: created_ids_def)

lemma created_fresh:
  assumes "distinct (ws @ created_ids pp arr [0..<n])" and "m < n" and "\<not> skips pp arr m"
  shows "part_ident arr m \<notin> set (ws @ created_ids pp arr [0..<m])"
proof -
  have "created_ids pp arr [0..<n] =
      created_ids pp arr [0..<m] @ part_ident arr m # created_ids pp arr [Suc m..<n]"
    using assms(3) by (simp add: upt_split [OF assms(2)] created_ids_def)
  then show ?thesis using assms(1) by auto
qed

lemma forEach_pass_ok:
  assumes ok: "pass_ok s" and keys: "map fst (prev s) = ws"
    and dist: "distinct (ws @ created_ids pp arr [0..<length arr])"
    and hd: "arr \<noteq> [] \<Longrightarrow> hd arr \<noteq> []"
    and carried: "\<forall>i<length arr. skips pp arr i \<longrightarrow>
        map_of (fakePartsAcc s) (join (take (Suc i) arr)) \<noteq> None"
    and m: "m \<le> length arr"
  shows "pass_ok (fold (\<lambda>i s'. forEach_body oldList f pp arr s' i) [0..<m] s) \<and>
         map fst (prev (fold (\<lambda>i s'. forEach_body oldList f pp arr s' i) [0..<m] s)) =
           ws @ created_ids pp arr [0..<m] \<and>
         present (fold (\<lambda>i s'. forEach_body oldList f pp arr s' i) [0..<m] s) arr m \<and>
         (\<forall>k. map_of (fakePartsAcc s) k \<noteq> None \<longrightarrow>
              map_of (fakePartsAcc (fold (\<lambda>i s'. forEach_body oldList f pp arr s' i) [0..<m] s)) k \<noteq> None)"
  using m
proof (induction m)
  case 0
  then show ?case using ok keys by (simp add: created_ids_def present_def)
next
  case (Suc m)
  define sm where "sm = fold (\<lambda>i s'. forEach_body oldList f pp arr s' i) [0..<m] s"
  have ml: "m < length arr" using Suc.prems by simp
  have "arr \<noteq> []" using ml by auto
  then have hd': "hd arr \<noteq> []" by (rule hd)
  have ih: "pass_ok sm" "map fst (prev sm) = ws @ created_ids pp arr [0..<m]" "present sm arr m"
    and mono: "\<And>k. map_of (fakePartsAcc s) k \<noteq> None \<Longrightarrow> map_of (fakePartsAcc sm) k \<noteq> None"
    using Suc.IH ml by (simp_all add: sm_def)
  have step: "fold (\<lambda>i s'. forEach_body oldList f pp arr s' i) [0..<Suc m] s =
      forEach_body oldList f pp arr sm m"
    by (simp add: sm_def)
  have mono': "\<And>k. map_of (fakePartsAcc s) k \<noteq> None \<Longrightarrow>
      map_of (fakePartsAcc (forEach_body oldList f pp arr sm m)) k \<noteq> None"
    using mono fakePartsAcc_mono by blast
  have pres_old: "\<forall>j<m. map_of (fakePartsAcc (forEach_body oldList f pp arr sm m))
      (join (take (Suc j) arr)) \<noteq> None"
    using ih(3) fakePartsAcc_mono unfolding present_def by blast
  show ?case
  proof (cases "skips pp arr m")
    case True
    have a: "pass_ok (forEach_body oldList f pp arr sm m)"
      by (rule pass_ok_skip [OF ih(1) True])
    have b: "map fst (prev (forEach_body oldList f pp arr sm m)) = ws @ created_ids pp arr [0..<Suc m]"
      using True ih(2) by (simp add: prev_forEach_body created_ids_append created_ids_single)
    have "map_of (fakePartsAcc (forEach_body oldList f pp arr sm m)) (join (take (Suc m) arr)) \<noteq> None"
      using carried ml True mono' by blast
    then have c: "present (forEach_body oldList f pp arr sm m) arr (Suc m)"
      using pres_old unfolding present_def by (auto simp: less_Suc_eq)
    show ?thesis unfolding step using a b c mono' by blast
  next
    case False
    have fr: "part_ident arr m \<notin> set (map fst (prev sm))"
      unfolding ih(2) by (rule created_fresh [OF dist ml False])
    then have fresh: "map_of (prev sm) (part_ident arr m) = None"
      by (simp add: map_of_eq_None_iff)
    have parent: "map_of (fakePartsAcc sm) (join (take m arr)) \<noteq> None" if "0 < m"
    proof -
      from that obtain j where j: "m = Suc j" by (cases m) auto
      then show ?thesis using ih(3) unfolding present_def by auto
    qed
    have a: "pass_ok (forEach_body oldList f pp arr sm m)"
      by (rule pass_ok_new [OF ih(1) False ml hd' fresh]) (use parent in simp)
    have b: "map fst (prev (forEach_body oldList f pp arr sm m)) = ws @ created_ids pp arr [0..<Suc m]"
      using False ih(2) by (simp add: prev_forEach_body update_fresh [OF fr] created_ids_append created_ids_single)
    have "map_of (fakePartsAcc (forEach_body oldList f pp arr sm m)) (join (take (Suc m) arr)) \<noteq> None"
      using False by (simp add: fakePartsAcc_forEach_body update_conv' part_ident_join [OF ml hd'])
    then have c: "present (forEach_body oldList f pp arr sm m) arr (Suc m)"
      using pres_old unfolding present_def by (auto simp: less_Suc_eq)
    show ?thesis unfolding step using a b c mono' by blast
  qed
qed

lemma expands_shown_index [simp]: "expands (f\<lparr>f_shown := a, f_index := b\<rparr>) = expands f"
  by (simp add: expands_def split: option.split)

lemma parts_of_shown_index [simp]: "parts_of (f\<lparr>f_shown := a, f_index := b\<rparr>) = parts_of f"
  by (simp add: parts_of_def)

lemma pass_ok_store_file:
  assumes "pass_ok s" and fresh: "map_of (prev s) (f_id f) = None"
    and okf: "ok_file (AList.update (f_id f) (FileChange (f\<lparr>f_shown := sh, f_index := index s\<rparr>)) (prev s))
               (f\<lparr>f_shown := sh, f_index := index s\<rparr>)"
  shows "pass_ok (fst (store_file f sh s))"
proof -
  define T' where "T' = AList.update (f_id f) (FileChange (f\<lparr>f_shown := sh, f_index := index s\<rparr>)) (prev s)"
  have ext: "extends (prev s) T'" unfolding T'_def by (rule extends_fresh [OF fresh])
  have p: "prev (fst (store_file f sh s)) = T'"
    and q: "fakePartsAcc (fst (store_file f sh s)) = fakePartsAcc s"
    and r: "parentPartChange (fst (store_file f sh s)) = parentPartChange s"
    by (simp_all add: fst_store_file T'_def)
  have a: "acc_fake (fst (store_file f sh s))"
    by (rule acc_fake_extends [OF _ ext q p]) (use assms(1) in \<open>simp add: pass_ok_def\<close>)
  have b: "acc_parent (fst (store_file f sh s))"
    using assms(1) by (simp add: pass_ok_def acc_parent_def q r)
  have "nodes_ok T'"
  proof (rule nodes_ok_extends [OF _ ext])
    show "nodes_ok (prev s)" using assms(1) by (simp add: pass_ok_def)
  next
    fix k n' assume "map_of T' k = Some n'" and "map_of (prev s) k = None"
    then have "n' = FileChange (f\<lparr>f_shown := sh, f_index := index s\<rparr>)"
      by (auto simp: T'_def update_conv' split: if_splits)
    then show "ok_node T' n'" using okf by (simp add: T'_def)
  qed
  then show ?thesis using a b by (simp add: pass_ok_def p)
qed

lemma file_parent_lookup:
  assumes "acc_parent s" and "2 \<le> length parts"
  shows "file_parent s parts = map_of (fakePartsAcc s) (join parts)"
proof (cases "parentPartChange s")
  case None
  then show ?thesis by (simp add: file_parent_def)
next
  case (Some q)
  then have "map_of (fakePartsAcc s) (p_id q) = Some q" using assms(1) by (simp add: acc_parent_def)
  then show ?thesis using Some assms(2) by (auto simp: file_parent_def)
qed

lemma pass_ok_file_parent:
  assumes "pass_ok s"
  shows "pass_ok (s\<lparr>parentPartChange := file_parent s parts\<rparr>)"
proof -
  have af: "acc_fake s" and ap: "acc_parent s" using assms by (simp_all add: pass_ok_def)
  have "map_of (fakePartsAcc s) (p_id p) = Some p" if "file_parent s parts = Some p" for p
  proof (cases "file_parent s parts = map_of (fakePartsAcc s) (join parts)")
    case True
    then show ?thesis using that af unfolding acc_fake_def by metis
  next
    case False
    then have "file_parent s parts = parentPartChange s"
      using that by (auto simp: file_parent_def split: if_splits)
    then show ?thesis using that ap by (simp add: acc_parent_def)
  qed
  then have "acc_parent (s\<lparr>parentPartChange := file_parent s parts\<rparr>)"
    by (simp add: acc_parent_def)
  moreover have "acc_fake (s\<lparr>parentPartChange := file_parent s parts\<rparr>)"
    using af by (simp add: acc_fake_def)
  ultimately show ?thesis using assms by (simp add: pass_ok_def)
qed

lemma carried_from_grouped:
  assumes "grouped_step pf f" and "carried_prev s pf" and "expands f"
  shows "\<forall>i<length (parts_of f). skips (previous_parts pf) (parts_of f) i \<longrightarrow>
           map_of (fakePartsAcc s) (join (take (Suc i) (parts_of f))) \<noteq> None"
proof (intro allI impI)
  fix i assume i: "i < length (parts_of f)" and sk: "skips (previous_parts pf) (parts_of f) i"
  from assms(1,3) i sk obtain p where p: "pf = Some p" "expands p"
    and t: "take (Suc i) (previous_parts pf) = take (Suc i) (parts_of f)"
    by (auto simp: grouped_step_def split: option.splits)
  have "i < length (parts_of p)" using sk p(1) by (simp add: skips_def previous_parts_def)
  moreover have "present s (parts_of p) (length (parts_of p))"
    using assms(2) p by (simp add: carried_prev_def)
  ultimately have "map_of (fakePartsAcc s) (join (take (Suc i) (parts_of p))) \<noteq> None"
    by (simp add: present_def)
  then show "map_of (fakePartsAcc s) (join (take (Suc i) (parts_of f))) \<noteq> None"
    using t p(1) by (simp add: previous_parts_def)
qed

lemma reduce_body_pass_ok:
  assumes ok: "pass_ok s" and keys: "map fst (prev s) = ws"
    and dist: "distinct (ws @ stored_by pf f)"
    and gr: "grouped_step pf f" and ca: "carried_prev s pf"
  shows "pass_ok (fst (reduce_body oldList pf s f)) \<and>
         map fst (prev (fst (reduce_body oldList pf s f))) = ws @ stored_by pf f \<and>
         carried_prev (fst (reduce_body oldList pf s f)) (Some f)"
proof (cases "expands f")
  case False
  have fr: "f_id f \<notin> set (map fst (prev s))" using dist False keys by (simp add: stored_by_def)
  then have fresh: "map_of (prev s) (f_id f) = None" by (simp add: map_of_eq_None_iff)
  have "pass_ok (fst (store_file f True s))"
    by (rule pass_ok_store_file [OF ok fresh]) (use False in \<open>simp add: ok_file_def\<close>)
  then show ?thesis
    using False keys by (simp add: reduce_body_plain fst_store_file update_fresh [OF fr]
        stored_by_def carried_prev_def)
next
  case True
  define arr where "arr = parts_of f"
  define s1 where "s1 = forEach_parts oldList f (previous_parts pf) arr s"
  define cr where "cr = created_ids (previous_parts pf) arr [0..<length arr]"
  have sb: "stored_by pf f = cr @ [f_id f]" using True by (simp add: stored_by_def cr_def arr_def)
  have d1: "distinct (ws @ cr)" using dist by (simp add: sb)
  have hd: "arr \<noteq> [] \<Longrightarrow> hd arr \<noteq> []" using gr True by (simp add: grouped_step_def arr_def)
  have car: "\<forall>i<length arr. skips (previous_parts pf) arr i \<longrightarrow>
      map_of (fakePartsAcc s) (join (take (Suc i) arr)) \<noteq> None"
    unfolding arr_def by (rule carried_from_grouped [OF gr ca True])
  have l: "pass_ok s1 \<and> map fst (prev s1) = ws @ cr \<and> present s1 arr (length arr) \<and>
      (\<forall>k. map_of (fakePartsAcc s) k \<noteq> None \<longrightarrow> map_of (fakePartsAcc s1) k \<noteq> None)"
    unfolding s1_def forEach_parts_def cr_def
    by (rule forEach_pass_ok [OF ok keys _ hd car]) (use d1 in \<open>simp_all add: cr_def\<close>)
  define s2 where "s2 = s1\<lparr>parentPartChange := file_parent s1 arr\<rparr>"
  have ok2: "pass_ok s2" unfolding s2_def by (rule pass_ok_file_parent) (use l in simp)
  have fr: "f_id f \<notin> set (map fst (prev s2))" using dist l by (simp add: sb s2_def)
  then have fresh: "map_of (prev s2) (f_id f) = None" by (simp add: map_of_eq_None_iff)
  define f' where "f' = f\<lparr>f_shown := file_shown s1 arr, f_index := index s2\<rparr>"
  have ef: "expands f'" "parts_of f' = arr"
    using True by (simp_all add: f'_def arr_def)
  have okf: "ok_file (AList.update (f_id f) (FileChange f') (prev s2)) f'"
  proof (cases "arr = [] \<or> length arr = 1")
    case True
    have sh: "arr = [] \<Longrightarrow> f_shown f'" by (simp add: f'_def file_shown_def)
    show ?thesis using True sh ef by (auto simp: ok_file_def)
  next
    case False
    then have two: "2 \<le> length arr" by (cases arr) (auto simp: Suc_le_eq)
    have ap: "acc_parent s1" and af: "acc_fake s1" using l by (simp_all add: pass_ok_def)
    have "join (take (Suc (length arr - 1)) arr) = join arr" using two by simp
    moreover have "map_of (fakePartsAcc s1) (join (take (Suc (length arr - 1)) arr)) \<noteq> None"
      using l two unfolding present_def by (metis diff_less less_le_trans zero_less_numeral zero_less_one)
    ultimately obtain p where p: "map_of (fakePartsAcc s1) (join arr) = Some p" by auto
    then obtain c where c: "map_of (prev s1) (join arr) = Some (FakePart c)" "p_opened c = p_opened p"
      using af unfolding acc_fake_def by blast
    have ne: "join arr \<noteq> f_id f" using c(1) fresh by (auto simp: s2_def)
    have "arr \<noteq> []" using two by auto
    then have "f_shown f' = p_opened p"
      by (simp add: f'_def file_shown_def file_parent_lookup [OF ap two] p)
    then show ?thesis
      using False ne c by (simp add: ok_file_def ef update_conv' s2_def)
  qed
  have k2: "map fst (prev s2) = ws @ cr" using l by (simp add: s2_def)
  have e: "fst (reduce_body oldList pf s f) = fst (store_file f (file_shown s1 arr) s2)"
    by (simp add: reduce_body_expands True s1_def arr_def s2_def)
  have a: "pass_ok (fst (store_file f (file_shown s1 arr) s2))"
    by (rule pass_ok_store_file [OF ok2 fresh]) (use okf in \<open>simp add: f'_def\<close>)
  have b: "map fst (prev (fst (store_file f (file_shown s1 arr) s2))) = ws @ stored_by pf f"
    by (simp add: fst_store_file update_fresh [OF fr] k2 sb)
  have "present (fst (store_file f (file_shown s1 arr) s2)) arr (length arr)"
    using l by (simp add: present_def fst_store_file s2_def)
  then have c: "carried_prev (fst (store_file f (file_shown s1 arr) s2)) (Some f)"
    by (simp add: carried_prev_def arr_def)
  show ?thesis unfolding e using a b c by simp
qed

lemma pass_ok_init: "pass_ok init_state"
  by (simp add: pass_ok_def acc_fake_def acc_parent_def nodes_ok_def init_state_def)

lemma run_files_pass_ok:
  assumes "pass_ok s" and "map fst (prev s) = ws" and "distinct (ws @ stored_ids pf fs)"
    and "grouped pf fs" and "carried_prev s pf"
  shows "pass_ok (run_files oldList pf s fs)"
  using assms
proof (induction fs arbitrary: s ws pf)
  case Nil
  then show ?case by simp
next
  case (Cons f fs)
  have d1: "distinct (ws @ stored_by pf f)" using Cons.prems(3) by auto
  have g1: "grouped_step pf f" and g2: "grouped (Some f) fs" using Cons.prems(4) by simp_all
  note st = reduce_body_pass_ok [OF Cons.prems(1,2) d1 g1 Cons.prems(5), of oldList]
  have d2: "distinct ((ws @ stored_by pf f) @ stored_ids (Some f) fs)" using Cons.prems(3) by auto
  show ?case
    using Cons.IH [OF conjunct1 [OF st] conjunct1 [OF conjunct2 [OF st]] d2 g2 conjunct2 [OF conjunct2 [OF st]]]
    by simp
qed

lemma nodes_ok_getFileList:
  assumes "grouped None changes" and "distinct (stored_ids None changes)"
  shows "nodes_ok (getFileList changes oldList)"
proof -
  have "pass_ok (run_files oldList None init_state changes)"
    by (rule run_files_pass_ok [OF pass_ok_init, where ws = "[]"])
       (use assms in \<open>simp_all add: init_state_def carried_prev_def\<close>)
  then show ?thesis by (simp add: getFileList_run pass_ok_def)
qed

subsection \<open>A pass does not read \<^verbatim>\<open>shown\<close> or \<^verbatim>\<open>index\<close> of its records\<close>

lemma same_record_fields:
  assumes "same_record f' f"
  shows "f_id f' = f_id f" "f_status f' = f_status f" "parts_of f' = parts_of f" "expands f' = expands f"
proof -
  have e: "f' = f\<lparr>f_shown := f_shown f', f_index := f_index f'\<rparr>" using assms by (simp add: same_record_def)
  show "f_id f' = f_id f" by (subst e) simp
  show "f_status f' = f_status f" by (subst e) simp
  show "parts_of f' = parts_of f" by (subst e) simp
  show "expands f' = expands f" by (subst e) simp
qed

lemma forEach_body_same_record:
  assumes "f_status f' = f_status f"
  shows "forEach_body oldList f' pp arr s i = forEach_body oldList f pp arr s i"
  unfolding forEach_body_def assms by (rule refl)

lemma forEach_parts_same_record:
  assumes "f_status f' = f_status f"
  shows "forEach_parts oldList f' pp arr s = forEach_parts oldList f pp arr s"
  by (simp add: forEach_parts_def forEach_body_same_record [OF assms])

lemma fst_store_file_same_record:
  assumes "same_record f' f"
  shows "fst (store_file f' sh s) = fst (store_file f sh s)"
proof -
  have e: "f' = f\<lparr>f_shown := f_shown f', f_index := f_index f'\<rparr>" using assms by (simp add: same_record_def)
  have "f'\<lparr>f_shown := sh, f_index := index s\<rparr> = f\<lparr>f_shown := sh, f_index := index s\<rparr>"
    by (subst e) simp
  then show ?thesis by (simp add: fst_store_file same_record_fields [OF assms])
qed

lemma fst_reduce_body_same_record:
  assumes "same_record f' f" and "previous_parts pf' = previous_parts pf"
  shows "fst (reduce_body oldList pf' s f') = fst (reduce_body oldList pf s f)"
proof (cases "expands f")
  case True
  then have "expands f'" by (simp add: same_record_fields [OF assms(1)])
  then show ?thesis
    using True
    by (simp add: reduce_body_expands same_record_fields [OF assms(1)] assms(2)
        forEach_parts_same_record [OF same_record_fields(2) [OF assms(1)]]
        fst_store_file_same_record [OF assms(1)])
next
  case False
  then have "\<not> expands f'" by (simp add: same_record_fields [OF assms(1)])
  then show ?thesis
    using False by (simp add: reduce_body_plain fst_store_file_same_record [OF assms(1)])
qed

lemma run_files_same_record:
  assumes "list_all2 same_record fs' fs" and "previous_parts pf' = previous_parts pf"
  shows "run_files oldList pf' s fs' = run_files oldList pf s fs"
  using assms
proof (induction fs' fs arbitrary: pf' pf s rule: list_all2_induct)
  case Nil
  then show ?case by simp
next
  case (Cons f' fs' f fs)
  have "previous_parts (Some f') = previous_parts (Some f)"
    by (simp add: previous_parts_def same_record_fields [OF Cons.hyps(1)])
  from Cons.IH [OF this] show ?case
    by (simp add: fst_reduce_body_same_record [OF Cons.hyps(1) Cons.prems])
qed

lemma getFileList_files_same_record:
  "list_all2 same_record (getFileList_files changes oldList) changes"
proof -
  have "list_all2 same_record (snd (reduce_files oldList pf s changes)) changes" for pf s
  proof (induction changes arbitrary: pf s)
    case Nil
    then show ?case by simp
  next
    case (Cons f fs)
    obtain sh ix where c: "snd (reduce_body oldList pf s f) = f\<lparr>f_shown := sh, f_index := ix\<rparr>"
      using snd_reduce_body [of oldList pf s f] by auto
    show ?case unfolding snd_reduce_files_Cons using Cons.IH c
      by (simp add: same_record_def)
  qed
  then show ?thesis by (simp add: getFileList_files_def)
qed

lemma getFileList_same_record:
  "list_all2 same_record changes' changes \<Longrightarrow> getFileList changes' oldList = getFileList changes oldList"
  by (simp add: getFileList_run run_files_same_record)

lemma run_files_after_pass [simp]:
  "run_files oldList pf s (getFileList_files changes old0) = run_files oldList pf s changes"
  by (rule run_files_same_record [OF getFileList_files_same_record refl])

lemma getFileList_after_pass [simp]:
  "getFileList (getFileList_files changes old0) oldList = getFileList changes oldList"
  by (rule getFileList_same_record [OF getFileList_files_same_record])

lemma component_B_files: "files (state component_B) = table_C"
  by (simp add: component_B_def toggled_def onOpenChanged_def ChangesList_constructor_def no_selection_def
      eval_pass file_B_def table_C_def Let_def)

text \<open>
  C1, as stated, fails: after the page is opened, the layer opened and the page
  closed again, the part \<^verbatim>\<open>doc.sketch/page1\<close> is not opened, and the part
  \<^verbatim>\<open>doc.sketch/page1/layer1\<close> below it and the change record in that layer are shown.
\<close>

theorem shown_rule_counterexample:
  "files (state component_B) = table_C \<and> \<not> spec_visibility (files (state component_B))"
  unfolding component_B_files
  by (simp add: spec_visibility_def parent_open_and_visible_def table_C_def parts_of_def file_B_def)

text \<open>
  C1, amended.  Take a change list on which the skip-if-unchanged rule is sound
  (\<open>grouped\<close>) and in whose pass no identifier is stored twice.  In the table of the
  pass every part of depth one or more has the part one level up in the table, and a
  part is shown if and only if it is of depth 0, or is itself opened, or the part one
  level up is opened; a change record that does not expand into parts or has an empty
  parts list is shown; a change record with two or more parts has the part it lies in
  in the table and is shown if and only if that part is opened.  Whether the part one
  level up is shown plays no role.  (Nothing is said of a record with exactly one part.)
\<close>

theorem shown_rule:
  assumes "grouped None changes" and "distinct (stored_ids None changes)"
  shows "(\<forall>k g. map_of (getFileList changes oldList) k = Some (FakePart g) \<longrightarrow>
            (p_parts g \<noteq> [] \<longrightarrow>
               (\<exists>p. map_of (getFileList changes oldList) (join (p_parts g)) = Some (FakePart p))) \<and>
            (p_shown g \<longleftrightarrow>
               p_parts g = [] \<or> p_opened g \<or>
               (\<exists>p. map_of (getFileList changes oldList) (join (p_parts g)) = Some (FakePart p) \<and>
                    p_opened p))) \<and>
         (\<forall>k f. map_of (getFileList changes oldList) k = Some (FileChange f) \<longrightarrow>
            (\<not> expands f \<or> parts_of f = [] \<longrightarrow> f_shown f) \<and>
            (expands f \<and> 2 \<le> length (parts_of f) \<longrightarrow>
               (\<exists>p. map_of (getFileList changes oldList) (join (parts_of f)) = Some (FakePart p)) \<and>
               (f_shown f \<longleftrightarrow>
                  (\<exists>p. map_of (getFileList changes oldList) (join (parts_of f)) = Some (FakePart p) \<and>
                       p_opened p))))"
proof -
  define T where "T = getFileList changes oldList"
  have ok: "nodes_ok T" unfolding T_def by (rule nodes_ok_getFileList [OF assms])
  have part: "(p_parts g \<noteq> [] \<longrightarrow> (\<exists>p. map_of T (join (p_parts g)) = Some (FakePart p))) \<and>
      (p_shown g \<longleftrightarrow> p_parts g = [] \<or> p_opened g \<or>
         (\<exists>p. map_of T (join (p_parts g)) = Some (FakePart p) \<and> p_opened p))"
    if "map_of T k = Some (FakePart g)" for k g
  proof -
    have "ok_part T g" using ok that unfolding nodes_ok_def by fastforce
    then show ?thesis
      by (auto simp: ok_part_def split: if_splits option.splits TFileOrSketchPartChange.splits)
  qed
  have filen: "(\<not> expands f \<or> parts_of f = [] \<longrightarrow> f_shown f) \<and>
      (expands f \<and> 2 \<le> length (parts_of f) \<longrightarrow>
         (\<exists>p. map_of T (join (parts_of f)) = Some (FakePart p)) \<and>
         (f_shown f \<longleftrightarrow> (\<exists>p. map_of T (join (parts_of f)) = Some (FakePart p) \<and> p_opened p)))"
    if "map_of T k = Some (FileChange f)" for k f
  proof -
    have "ok_file T f" using ok that unfolding nodes_ok_def by fastforce
    then show ?thesis
      by (auto simp: ok_file_def split: if_splits option.splits TFileOrSketchPartChange.splits)
  qed
  show ?thesis unfolding T_def [symmetric] using part filen by blast
qed

theorem shown_rule_witness:
  "grouped None [file_B] \<and> distinct (stored_ids None [file_B]) \<and>
   map_of (getFileList [file_B] (Some table_C)) ''doc.sketch/page1/layer1'' =
     Some (FakePart \<lparr> p_opened = True, p_shown = True, p_index = 2, p_type = LayerFile,
         p_id = ''doc.sketch/page1/layer1'', p_parts = [''doc.sketch'', ''page1''],
         p_name = ''layer1'', p_status = None \<rparr>) \<and>
   map_of (getFileList [file_B] (Some table_C)) ''doc.sketch/page1'' =
     Some (FakePart \<lparr> p_opened = False, p_shown = True, p_index = 1, p_type = PageFile,
         p_id = ''doc.sketch/page1'', p_parts = [''doc.sketch''], p_name = ''page1'',
         p_status = None \<rparr>)"
proof -
  have g: "grouped None [file_B]"
    by (simp add: grouped_step_def expands_def parts_of_def previous_parts_def skips_def file_B_def)
  have d: "distinct (stored_ids None [file_B])"
    by (simp add: stored_by_def created_ids_def eval_pass file_B_def)
  have t: "getFileList [file_B] (Some table_C) = table_C"
    by (simp add: eval_pass file_B_def table_C_def)
  show ?thesis
    using shown_rule [OF g d, of "Some table_C"] g d
    unfolding t by (simp add: table_C_def)
qed

section \<open>Closing and re-opening a part\<close>

subsection \<open>Two passes over one change list\<close>

lemma views_update_same:
  "map_of T k = Some n \<Longrightarrow> node_view n' = node_view n \<Longrightarrow> views (AList.update k n' T) = views T"
  unfolding views_def by (induction T) (auto split: if_splits)

lemma views_attach [simp]: "views (attach_status f k T) = views T"
  by (auto simp: attach_status_def views_update_same node_view_def
      split: option.splits TFileOrSketchPartChange.splits)

lemma views_update_le:
  assumes "list_all2 (view_le b) (views T1) (views T2)"
    and "view_le b (k, node_view v1) (k, node_view v2)"
  shows "list_all2 (view_le b) (views (AList.update k v1 T1)) (views (AList.update k v2 T2))"
  using assms(1)
proof (induction T1 arbitrary: T2)
  case Nil
  then show ?case using assms(2) by (simp add: views_def)
next
  case (Cons a T1)
  then obtain c T2' where t: "T2 = c # T2'" by (cases T2) (auto simp: views_def)
  have h: "view_le b (fst a, node_view (snd a)) (fst c, node_view (snd c))"
    and r: "list_all2 (view_le b) (views T1) (views T2')"
    using Cons.prems by (auto simp: t views_def)
  have k: "fst a = fst c" using h by (simp add: view_le_def)
  show ?case
  proof (cases "fst a = k")
    case True
    then show ?thesis using k r assms(2) by (simp add: t views_def)
  next
    case False
    then show ?thesis using k h Cons.IH [OF r] by (simp add: t views_def)
  qed
qed

lemma parent_at_le:
  assumes "state_le b s1 s2"
  shows "rel_option (part_le b) (parent_at s1 i pk) (parent_at s2 i pk)"
proof -
  have l: "rel_option (part_le b) (map_of (fakePartsAcc s1) pk) (map_of (fakePartsAcc s2) pk)"
    and p: "rel_option (part_le b) (parentPartChange s1) (parentPartChange s2)"
    using assms by (simp_all add: state_le_def)
  show ?thesis
  proof (cases "parentPartChange s1")
    case None
    then have "parentPartChange s2 = None" using p by (cases "parentPartChange s2") auto
    then show ?thesis using None l by (simp add: parent_at_def)
  next
    case (Some q1)
    then obtain q2 where q: "parentPartChange s2 = Some q2" "part_le b q1 q2"
      using p by (cases "parentPartChange s2") auto
    then show ?thesis using Some l by (auto simp: parent_at_def part_le_def)
  qed
qed

lemma state_le_reset: "state_le b s1 s2 \<Longrightarrow> state_le b (reset_parent i s1) (reset_parent i s2)"
  by (simp add: state_le_def reset_parent_def)

lemma new_part_le:
  assumes "state_le b s1 s2" and "old_le b old1 old2"
  shows "part_le b (new_part old1 f arr i s1) (new_part old2 f arr i s2) \<and>
         view_le b (part_ident arr i, node_view (FakePart (new_part old1 f arr i s1)))
                   (part_ident arr i, node_view (FakePart (new_part old2 f arr i s2)))"
proof -
  have o: "b \<Longrightarrow> opened_of old1 (part_ident arr i) i \<Longrightarrow> opened_of old2 (part_ident arr i) i"
    using assms(2) by (simp add: old_le_def)
  have "rel_option (part_le b) (parent_at s1 i (join (take i arr))) (parent_at s2 i (join (take i arr)))"
    by (rule parent_at_le [OF assms(1)])
  then have "b \<Longrightarrow>
      (case parent_at s1 i (join (take i arr)) of None \<Rightarrow> True | Some p \<Rightarrow> p_opened p) \<Longrightarrow>
      (case parent_at s2 i (join (take i arr)) of None \<Rightarrow> True | Some p \<Rightarrow> p_opened p)"
    by (cases "parent_at s1 i (join (take i arr))"; cases "parent_at s2 i (join (take i arr))")
       (auto simp: part_le_def)
  then show ?thesis using o
    by (auto simp: part_le_def view_le_def node_view_def new_part_def)
qed

lemma forEach_body_le:
  assumes "state_le b s1 s2" and "old_le b old1 old2"
  shows "state_le b (forEach_body old1 f pp arr s1 i) (forEach_body old2 f pp arr s2 i)"
proof (cases "skips pp arr i")
  case True
  show ?thesis
    using state_le_reset [OF assms(1), of i] True
    by (simp add: forEach_body_eq state_le_def)
next
  case False
  note r = state_le_reset [OF assms(1), of i]
  note n = new_part_le [OF r assms(2), of f arr i]
  have v: "list_all2 (view_le b)
      (views (AList.update (part_ident arr i) (FakePart (new_part old1 f arr i (reset_parent i s1))) (prev s1)))
      (views (AList.update (part_ident arr i) (FakePart (new_part old2 f arr i (reset_parent i s2))) (prev s2)))"
    by (rule views_update_le) (use assms(1) n in \<open>simp_all add: state_le_def\<close>)
  show ?thesis
    using False v n assms(1)
    by (simp add: forEach_body_eq state_le_def update_conv')
qed


lemma forEach_parts_le:
  assumes "state_le b s1 s2" and "old_le b old1 old2"
  shows "state_le b (forEach_parts old1 f pp arr s1) (forEach_parts old2 f pp arr s2)"
proof -
  have "state_le b (fold (\<lambda>i s'. forEach_body old1 f pp arr s' i) xs s1)
                   (fold (\<lambda>i s'. forEach_body old2 f pp arr s' i) xs s2)" for xs
    using assms(1)
    by (induction xs arbitrary: s1 s2) (simp_all add: forEach_body_le [OF _ assms(2)])
  then show ?thesis by (simp add: forEach_parts_def)
qed

lemma file_parent_le:
  assumes "state_le b s1 s2"
  shows "rel_option (part_le b) (file_parent s1 parts) (file_parent s2 parts)"
proof -
  have l: "rel_option (part_le b) (map_of (fakePartsAcc s1) (join parts)) (map_of (fakePartsAcc s2) (join parts))"
    and p: "rel_option (part_le b) (parentPartChange s1) (parentPartChange s2)"
    using assms by (simp_all add: state_le_def)
  show ?thesis
  proof (cases "parentPartChange s1")
    case None
    then have "parentPartChange s2 = None" using p by (cases "parentPartChange s2") auto
    then show ?thesis using None l by (simp add: file_parent_def)
  next
    case (Some q1)
    then obtain q2 where q: "parentPartChange s2 = Some q2" "part_le b q1 q2"
      using p by (cases "parentPartChange s2") auto
    then show ?thesis using Some l by (auto simp: file_parent_def part_le_def)
  qed
qed

lemma store_file_le:
  assumes "state_le b s1 s2" and "b \<Longrightarrow> sh1 \<Longrightarrow> sh2"
  shows "state_le b (fst (store_file f sh1 s1)) (fst (store_file f sh2 s2))"
proof -
  have "list_all2 (view_le b)
      (views (AList.update (f_id f) (FileChange (f\<lparr>f_shown := sh1, f_index := index s1\<rparr>)) (prev s1)))
      (views (AList.update (f_id f) (FileChange (f\<lparr>f_shown := sh2, f_index := index s2\<rparr>)) (prev s2)))"
    by (rule views_update_le)
       (use assms in \<open>simp_all add: state_le_def view_le_def node_view_def\<close>)
  then show ?thesis using assms(1) by (simp add: fst_store_file state_le_def)
qed

lemma reduce_body_le:
  assumes "state_le b s1 s2" and "old_le b old1 old2"
  shows "state_le b (fst (reduce_body old1 pf s1 f)) (fst (reduce_body old2 pf s2 f))"
proof (cases "expands f")
  case True
  define t1 where "t1 = forEach_parts old1 f (previous_parts pf) (parts_of f) s1"
  define t2 where "t2 = forEach_parts old2 f (previous_parts pf) (parts_of f) s2"
  have t: "state_le b t1 t2" unfolding t1_def t2_def by (rule forEach_parts_le [OF assms])
  note fp = file_parent_le [OF t, of "parts_of f"]
  have u: "state_le b (t1\<lparr>parentPartChange := file_parent t1 (parts_of f)\<rparr>)
                      (t2\<lparr>parentPartChange := file_parent t2 (parts_of f)\<rparr>)"
    using t fp by (simp add: state_le_def)
  have sh: "b \<Longrightarrow> file_shown t1 (parts_of f) \<Longrightarrow> file_shown t2 (parts_of f)"
    using fp
    by (cases "file_parent t1 (parts_of f)"; cases "file_parent t2 (parts_of f)")
       (auto simp: file_shown_def part_le_def)
  show ?thesis
    unfolding reduce_body_expands [OF True] t1_def [symmetric] t2_def [symmetric]
    by (rule store_file_le [OF u sh])
next
  case False
  show ?thesis
    unfolding reduce_body_plain [OF False] by (rule store_file_le [OF assms(1)])
qed

lemma run_files_le:
  assumes "state_le b s1 s2" and "old_le b old1 old2"
  shows "state_le b (run_files old1 pf s1 fs) (run_files old2 pf s2 fs)"
  using assms(1)
  by (induction fs arbitrary: s1 s2 pf) (simp_all add: reduce_body_le [OF _ assms(2)])

lemma getFileList_le:
  assumes "old_le b old1 old2"
  shows "list_all2 (view_le b) (views (getFileList changes old1)) (views (getFileList changes old2))"
proof -
  have "state_le b init_state init_state"
    by (simp add: state_le_def init_state_def views_def)
  from run_files_le [OF this assms, of None changes] show ?thesis
    by (simp add: getFileList_run state_le_def)
qed

lemma shown_count_le:
  "list_all2 (view_le True) (views T1) (views T2) \<Longrightarrow>
   length (filter node_shown (map snd T1)) \<le> length (filter node_shown (map snd T2))"
proof (induction T1 arbitrary: T2)
  case Nil
  then show ?case by simp
next
  case (Cons a T1)
  then obtain c T2' where t: "T2 = c # T2'" by (cases T2) (auto simp: views_def)
  have h: "view_le True (fst a, node_view (snd a)) (fst c, node_view (snd c))"
    and r: "list_all2 (view_le True) (views T1) (views T2')"
    using Cons.prems by (auto simp: t views_def)
  have "node_shown (snd a) \<Longrightarrow> node_shown (snd c)"
    using h by (cases "snd a"; cases "snd c") (auto simp: view_le_def node_view_def)
  then show ?case using Cons.IH [OF r] by (auto simp: t)
qed

lemma length_getOpenedFilesList:
  "length (getOpenedFilesList T) = length (filter node_shown (map snd T))"
  by (simp add: getOpenedFilesList_def)

lemma same_kind_lookup:
  "list_all2 (view_le b) (views T1) (views T2) \<Longrightarrow>
   rel_option (\<lambda>n1 n2. fst (node_view n1) = fst (node_view n2)) (map_of T1 k) (map_of T2 k)"
proof (induction T1 arbitrary: T2)
  case Nil
  then show ?case by (simp add: views_def)
next
  case (Cons a T1)
  then obtain c T2' where t: "T2 = c # T2'" by (cases T2) (auto simp: views_def)
  have h: "view_le b (fst a, node_view (snd a)) (fst c, node_view (snd c))"
    and r: "list_all2 (view_le b) (views T1) (views T2')"
    using Cons.prems by (auto simp: t views_def)
  show ?case using h Cons.IH [OF r] by (cases a; cases c) (auto simp: t view_le_def)
qed


subsection \<open>A pass reads the previous table through \<open>opened_of\<close> alone\<close>

lemma run_files_old_cong:
  assumes "\<And>k i. opened_of old1 k i = opened_of old2 k i"
  shows "run_files old1 pf s fs = run_files old2 pf s fs"
proof -
  have n: "new_part old1 f arr i s' = new_part old2 f arr i s'" for f arr i s'
    unfolding new_part_def assms by (rule refl)
  have b: "forEach_body old1 f pp arr s' i = forEach_body old2 f pp arr s' i" for f pp arr s' i
    unfolding forEach_body_eq n by (rule refl)
  have p: "forEach_parts old1 f pp arr s' = forEach_parts old2 f pp arr s'" for f pp arr s'
    by (simp add: forEach_parts_def b)
  have r: "reduce_body old1 pf' s' f = reduce_body old2 pf' s' f" for pf' s' f
    by (cases "expands f") (simp_all add: reduce_body_expands reduce_body_plain p)
  show ?thesis by (induction fs arbitrary: pf s) (simp_all add: r)
qed

lemma getFileList_old_cong:
  assumes "\<And>k i. opened_of old1 k i = opened_of old2 k i"
  shows "getFileList changes old1 = getFileList changes old2"
  unfolding getFileList_run by (rule arg_cong [OF run_files_old_cong [OF assms]])

subsection \<open>The state after a toggle\<close>

lemma same_record_trans:
  assumes "same_record f'' f'" and "same_record f' f"
  shows "same_record f'' f"
proof -
  have a: "f'' = f'\<lparr>f_shown := f_shown f'', f_index := f_index f''\<rparr>"
    using assms(1) unfolding same_record_def .
  have b: "f' = f\<lparr>f_shown := f_shown f', f_index := f_index f'\<rparr>"
    using assms(2) unfolding same_record_def .
  have "f'\<lparr>f_shown := x, f_index := y\<rparr> = f\<lparr>f_shown := x, f_index := y\<rparr>" for x y
    by (subst b) simp
  then have "f'' = f\<lparr>f_shown := f_shown f'', f_index := f_index f''\<rparr>"
    using a by metis
  then show ?thesis unfolding same_record_def .
qed


subsection \<open>A pass with its own table as the previous table\<close>

text \<open>Two previous tables that give the same \<^verbatim>\<open>opened\<close> flag wherever the pass asks
  give the same table.  When no identifier is stored twice, every part that the pass
  synthesizes is still in the table at the end, with the flag it was given; so a pass
  over the same change list with that table as the previous one gives the table again.\<close>

lemma forEach_body_old_cong:
  assumes "\<not> skips pp arr i \<Longrightarrow> opened_of old1 (part_ident arr i) i = opened_of old2 (part_ident arr i) i"
  shows "forEach_body old1 f pp arr s i = forEach_body old2 f pp arr s i"
proof (cases "skips pp arr i")
  case True
  then show ?thesis by (simp add: forEach_body_eq)
next
  case False
  have "new_part old1 f arr i s' = new_part old2 f arr i s'" for s'
    unfolding new_part_def assms [OF False] by (rule refl)
  then show ?thesis by (simp add: forEach_body_eq)
qed

lemma reduce_body_old_cong:
  assumes "\<And>k i. (k, i) \<in> set (created_at pf f) \<Longrightarrow> opened_of old1 k i = opened_of old2 k i"
  shows "reduce_body old1 pf s f = reduce_body old2 pf s f"
proof (cases "expands f")
  case True
  have "forEach_parts old1 f (previous_parts pf) (parts_of f) s =
        forEach_parts old2 f (previous_parts pf) (parts_of f) s"
    unfolding forEach_parts_def
  proof (rule fold_cong [OF refl refl])
    fix i assume "i \<in> set [0..<length (parts_of f)]"
    then have "\<not> skips (previous_parts pf) (parts_of f) i \<Longrightarrow>
        (part_ident (parts_of f) i, i) \<in> set (created_at pf f)"
      by (auto simp: created_at_def True)
    then have "(\<lambda>s'. forEach_body old1 f (previous_parts pf) (parts_of f) s' i) =
          (\<lambda>s'. forEach_body old2 f (previous_parts pf) (parts_of f) s' i)"
      by (intro ext forEach_body_old_cong assms)
    then show "(\<lambda>s'. forEach_body old1 f (previous_parts pf) (parts_of f) s' i) =
          (\<lambda>s'. forEach_body old2 f (previous_parts pf) (parts_of f) s' i)" .
  qed
  then show ?thesis by (simp add: reduce_body_expands [OF True])
next
  case False
  then show ?thesis by (simp add: reduce_body_plain)
qed

lemma run_files_old_cong_on:
  assumes "\<And>k i. (k, i) \<in> set (asked pf fs) \<Longrightarrow> opened_of old1 k i = opened_of old2 k i"
  shows "run_files old1 pf s fs = run_files old2 pf s fs"
  using assms
proof (induction fs arbitrary: pf s)
  case Nil
  then show ?case by simp
next
  case (Cons f fs)
  have r: "reduce_body old1 pf s f = reduce_body old2 pf s f"
    by (rule reduce_body_old_cong) (simp add: Cons.prems)
  have "run_files old1 (Some f) (fst (reduce_body old2 pf s f)) fs =
        run_files old2 (Some f) (fst (reduce_body old2 pf s f)) fs"
    by (rule Cons.IH) (simp add: Cons.prems)
  then show ?case by (simp add: r)
qed


lemma opened_at_attach [simp]: "opened_at (attach_status f k' T) k = opened_at T k"
  by (auto simp: opened_at_def map_of_attach_status split: option.splits TFileOrSketchPartChange.splits)

lemma opened_at_update_other: "k' \<noteq> k \<Longrightarrow> opened_at (AList.update k' v T) k = opened_at T k"
  by (simp add: opened_at_def update_conv')

lemma opened_at_forEach_body_other:
  "(\<not> skips pp arr i \<Longrightarrow> part_ident arr i \<noteq> k) \<Longrightarrow>
   opened_at (prev (forEach_body oldList f pp arr s i)) k = opened_at (prev s) k"
  by (cases "skips pp arr i") (simp_all add: prev_forEach_body opened_at_update_other)

lemma opened_at_forEach_body_new:
  "\<not> skips pp arr i \<Longrightarrow>
   opened_at (prev (forEach_body oldList f pp arr s i)) (part_ident arr i) =
     Some (opened_of oldList (part_ident arr i) i)"
  by (simp add: prev_forEach_body opened_at_def update_conv' new_part_def)

lemma opened_at_fold_other:
  "k \<notin> set (created_ids pp arr xs) \<Longrightarrow>
   opened_at (prev (fold (\<lambda>i s'. forEach_body oldList f pp arr s' i) xs s)) k = opened_at (prev s) k"
proof (induction xs arbitrary: s)
  case Nil
  then show ?case by simp
next
  case (Cons x xs)
  have a: "k \<notin> set (created_ids pp arr xs)" and b: "\<not> skips pp arr x \<Longrightarrow> part_ident arr x \<noteq> k"
    using Cons.prems by (auto simp: created_ids_def)
  show ?case
    by (simp add: Cons.IH [OF a] opened_at_forEach_body_other [OF b])
qed

lemma opened_at_fold_new:
  assumes "i \<in> set xs" and "\<not> skips pp arr i" and "distinct (created_ids pp arr xs)"
  shows "opened_at (prev (fold (\<lambda>i s'. forEach_body oldList f pp arr s' i) xs s)) (part_ident arr i) =
           Some (opened_of oldList (part_ident arr i) i)"
  using assms(1,3)
proof (induction xs arbitrary: s)
  case Nil
  then show ?case by simp
next
  case (Cons x xs)
  show ?case
  proof (cases "x = i")
    case True
    have "part_ident arr i \<notin> set (created_ids pp arr xs)"
      using Cons.prems(2) assms(2) True by (simp add: created_ids_def)
    then show ?thesis
      using True by (simp add: opened_at_fold_other opened_at_forEach_body_new [OF assms(2)])
  next
    case False
    then have a: "i \<in> set xs" using Cons.prems(1) by simp
    have b: "distinct (created_ids pp arr xs)"
      using Cons.prems(2) by (simp add: created_ids_def split: if_splits)
    show ?thesis by (simp add: Cons.IH [OF a b])
  qed
qed

lemma opened_at_store_file_other:
  "f_id f \<noteq> k \<Longrightarrow> opened_at (prev (fst (store_file f sh s))) k = opened_at (prev s) k"
  by (simp add: fst_store_file opened_at_update_other)

lemma opened_at_reduce_body_other:
  assumes "k \<notin> set (stored_by pf f)"
  shows "opened_at (prev (fst (reduce_body oldList pf s f))) k = opened_at (prev s) k"
proof (cases "expands f")
  case True
  have a: "k \<notin> set (created_ids (previous_parts pf) (parts_of f) [0..<length (parts_of f)])"
    and b: "f_id f \<noteq> k"
    using assms True by (auto simp: stored_by_def)
  show ?thesis
    by (simp add: reduce_body_expands [OF True] opened_at_store_file_other [OF b]
        forEach_parts_def opened_at_fold_other [OF a])
next
  case False
  then have b: "f_id f \<noteq> k" using assms by (auto simp: stored_by_def)
  show ?thesis by (simp add: reduce_body_plain [OF False] opened_at_store_file_other [OF b])
qed

lemma opened_at_reduce_body_new:
  assumes "(k, i) \<in> set (created_at pf f)" and "distinct (stored_by pf f)"
  shows "opened_at (prev (fst (reduce_body oldList pf s f))) k = Some (opened_of oldList k i)"
proof -
  have e: "expands f" using assms(1) by (auto simp: created_at_def split: if_splits)
  have k: "k = part_ident (parts_of f) i" and i: "i \<in> set [0..<length (parts_of f)]"
    and n: "\<not> skips (previous_parts pf) (parts_of f) i"
    using assms(1) e by (auto simp: created_at_def)
  have d: "distinct (created_ids (previous_parts pf) (parts_of f) [0..<length (parts_of f)])"
    and b: "f_id f \<noteq> k"
    using assms(2) e i n unfolding k by (auto simp: stored_by_def created_ids_def)
  show ?thesis
    unfolding k
    by (simp add: reduce_body_expands [OF e] opened_at_store_file_other [OF b [unfolded k]]
        forEach_parts_def opened_at_fold_new [OF i n d])
qed

lemma opened_at_run_files_other:
  "k \<notin> set (stored_ids pf fs) \<Longrightarrow>
   opened_at (prev (run_files oldList pf s fs)) k = opened_at (prev s) k"
proof (induction fs arbitrary: pf s)
  case Nil
  then show ?case by simp
next
  case (Cons f fs)
  have a: "k \<notin> set (stored_by pf f)" and b: "k \<notin> set (stored_ids (Some f) fs)"
    using Cons.prems by auto
  show ?case by (simp add: Cons.IH [OF b] opened_at_reduce_body_other [OF a])
qed

lemma opened_at_run_files_new:
  assumes "(k, i) \<in> set (asked pf fs)" and "distinct (stored_ids pf fs)"
  shows "opened_at (prev (run_files oldList pf s fs)) k = Some (opened_of oldList k i)"
  using assms
proof (induction fs arbitrary: pf s)
  case Nil
  then show ?case by simp
next
  case (Cons f fs)
  have d1: "distinct (stored_by pf f)" and d2: "distinct (stored_ids (Some f) fs)"
    and d3: "set (stored_by pf f) \<inter> set (stored_ids (Some f) fs) = {}"
    using Cons.prems(2) by auto
  from Cons.prems(1) consider "(k, i) \<in> set (created_at pf f)" | "(k, i) \<in> set (asked (Some f) fs)"
    by auto
  then show ?case
  proof cases
    case 1
    then have "k \<in> set (stored_by pf f)"
      by (auto simp: created_at_def stored_by_def created_ids_def split: if_splits)
    then have "k \<notin> set (stored_ids (Some f) fs)" using d3 by auto
    then show ?thesis
      by (simp add: opened_at_run_files_other opened_at_reduce_body_new [OF 1 d1])
  next
    case 2
    show ?thesis by (simp add: Cons.IH [OF 2 d2])
  qed
qed

lemma pass_fixed_point:
  assumes "distinct (stored_ids None changes)"
  shows "getFileList changes (Some (getFileList changes oldList)) = getFileList changes oldList"
proof -
  have "run_files (Some (getFileList changes oldList)) None init_state changes =
        run_files oldList None init_state changes"
  proof (rule run_files_old_cong_on)
    fix k i assume "(k, i) \<in> set (asked None changes)"
    then have "opened_at (getFileList changes oldList) k = Some (opened_of oldList k i)"
      unfolding getFileList_run by (rule opened_at_run_files_new [OF _ assms])
    then show "opened_of (Some (getFileList changes oldList)) k i = opened_of oldList k i"
      by (auto simp: opened_at_def opened_of_def split: option.splits TFileOrSketchPartChange.splits)
  qed
  then show ?thesis by (simp add: getFileList_run)
qed


lemma stored_ids_same_record:
  assumes "list_all2 same_record fs' fs" and "previous_parts pf' = previous_parts pf"
  shows "stored_ids pf' fs' = stored_ids pf fs"
  using assms
proof (induction fs' fs arbitrary: pf' pf rule: list_all2_induct)
  case Nil
  then show ?case by simp
next
  case (Cons f' fs' f fs)
  have p: "previous_parts (Some f') = previous_parts (Some f)"
    by (simp add: previous_parts_def same_record_fields [OF Cons.hyps(1)])
  have "stored_by pf' f' = stored_by pf f"
    by (simp add: stored_by_def same_record_fields [OF Cons.hyps(1)] Cons.prems)
  then show ?case by (simp add: Cons.IH [OF p])
qed

lemma stored_ids_after_pass [simp]:
  "stored_ids None (getFileList_files changes oldList) = stored_ids None changes"
  by (rule stored_ids_same_record [OF getFileList_files_same_record refl])

subsection \<open>\<^verbatim>\<open>onOpenChanged\<close> on a part\<close>

lemma onOpenChanged_part:
  assumes "map_of (files (state c)) g = Some (FakePart p)"
  shows "onOpenChanged c g b =
     Inr \<lparr> props = (props c)\<lparr>workingDirectory_files :=
               getFileList_files (workingDirectory_files (props c))
                 (Some (AList.update g (FakePart (p\<lparr>p_opened := b\<rparr>)) (files (state c))))\<rparr>,
           state = state_of (getFileList (workingDirectory_files (props c))
                 (Some (AList.update g (FakePart (p\<lparr>p_opened := b\<rparr>)) (files (state c))))) \<rparr>"
  using assms by (simp add: onOpenChanged_def Let_def state_of_def)

lemma opened_of_closed:
  assumes "map_of T g = Some (FakePart p)"
  shows "old_le True (Some (AList.update g (FakePart (p\<lparr>p_opened := False\<rparr>)) T)) (Some T)"
  unfolding old_le_def opened_of_def using assms by (simp add: update_conv')

text \<open>The constructor leaves a table that a pass over the change list reproduces, and
  \<^verbatim>\<open>onOpenChanged\<close> keeps it so, when no identifier is stored twice.\<close>

lemma constructor_fixed_point:
  assumes "distinct (stored_ids None (workingDirectory_files p))"
  shows "getFileList (workingDirectory_files (props (ChangesList_constructor p)))
           (Some (files (state (ChangesList_constructor p)))) =
         files (state (ChangesList_constructor p)) \<and>
         distinct (stored_ids None (workingDirectory_files (props (ChangesList_constructor p))))"
  using assms by (simp add: ChangesList_constructor_def Let_def pass_fixed_point)

lemma onOpenChanged_fixed_point:
  assumes "getFileList (workingDirectory_files (props c)) (Some (files (state c))) = files (state c)"
    and "distinct (stored_ids None (workingDirectory_files (props c)))"
    and "onOpenChanged c g b = Inr c'"
  shows "getFileList (workingDirectory_files (props c')) (Some (files (state c'))) = files (state c') \<and>
         distinct (stored_ids None (workingDirectory_files (props c')))"
proof (cases "map_of (files (state c)) g")
  case None
  then have "c' = c" using assms(3) by (simp add: onOpenChanged_def split: if_splits)
  then show ?thesis using assms(1,2) by simp
next
  case (Some n)
  show ?thesis
  proof (cases n)
    case (FileChange f)
    then have "c' = c" using Some assms(3) by (simp add: onOpenChanged_def)
    then show ?thesis using assms(1,2) by simp
  next
    case (FakePart p)
    have "c' = \<lparr> props = (props c)\<lparr>workingDirectory_files :=
               getFileList_files (workingDirectory_files (props c))
                 (Some (AList.update g (FakePart (p\<lparr>p_opened := b\<rparr>)) (files (state c))))\<rparr>,
           state = state_of (getFileList (workingDirectory_files (props c))
                 (Some (AList.update g (FakePart (p\<lparr>p_opened := b\<rparr>)) (files (state c))))) \<rparr>"
      using onOpenChanged_part [of c g p b] Some FakePart assms(3) by simp
    then show ?thesis
      using assms(2) by (simp add: state_of_def pass_fixed_point)
  qed
qed

text \<open>Toggling a part closed does not lengthen the projection, and toggling an opened
  part closed and open again leads back to the same state, when the table is the one a
  pass over the change list gives from that table.\<close>

lemma toggle_closed_not_longer:
  assumes fixp: "getFileList (workingDirectory_files (props c)) (Some (files (state c))) = files (state c)"
    and vis: "visibleFileList (state c) = getOpenedFilesList (files (state c))"
    and g: "map_of (files (state c)) g = Some (FakePart p)"
  shows "\<exists>c1. onOpenChanged c g False = Inr c1 \<and>
              length (visibleFileList (state c1)) \<le> length (visibleFileList (state c)) \<and>
              (p_opened p \<longrightarrow> (\<exists>c2. onOpenChanged c1 g True = Inr c2 \<and> state c2 = state c))"
proof -
  define cs where "cs = workingDirectory_files (props c)"
  define T where "T = files (state c)"
  define T' where "T' = AList.update g (FakePart (p\<lparr>p_opened := False\<rparr>)) T"
  define T1 where "T1 = getFileList cs (Some T')"
  define c1 where "c1 = \<lparr> props = (props c)\<lparr>workingDirectory_files := getFileList_files cs (Some T')\<rparr>,
      state = state_of T1 \<rparr>"
  have fixT: "getFileList cs (Some T) = T" using fixp by (simp add: cs_def T_def)
  have gT: "map_of T g = Some (FakePart p)" using g by (simp add: T_def)
  have st: "state c = state_of T" using vis by (simp add: state_of_def T_def)
  have s1: "onOpenChanged c g False = Inr c1"
    using onOpenChanged_part [OF g, of False] by (simp add: c1_def T1_def T'_def T_def cs_def)
  have "list_all2 (view_le True) (views T1) (views (getFileList cs (Some T)))"
    unfolding T1_def T'_def by (rule getFileList_le [OF opened_of_closed [OF gT]])
  then have "length (filter node_shown (map snd T1)) \<le> length (filter node_shown (map snd T))"
    unfolding fixT by (rule shown_count_le)
  then have le: "length (visibleFileList (state c1)) \<le> length (visibleFileList (state c))"
    by (simp add: c1_def st state_of_def length_getOpenedFilesList)
  have reopen: "\<exists>c2. onOpenChanged c1 g True = Inr c2 \<and> state c2 = state c" if was_open: "p_opened p"
  proof -
    have "list_all2 (view_le False) (views T1) (views (getFileList cs (Some T)))"
      unfolding T1_def by (rule getFileList_le) (simp add: old_le_def)
    then have kinds: "rel_option (\<lambda>n1 n2. fst (node_view n1) = fst (node_view n2)) (map_of T1 k) (map_of T k)" for k
      unfolding fixT by (rule same_kind_lookup)
    from kinds [of g] gT obtain n1 where n1: "map_of T1 g = Some n1" "fst (node_view n1)"
      by (cases "map_of T1 g") (auto simp: node_view_def)
    then obtain p1 where p1: "map_of T1 g = Some (FakePart p1)"
      by (cases n1) (auto simp: node_view_def)
    define T1' where "T1' = AList.update g (FakePart (p1\<lparr>p_opened := True\<rparr>)) T1"
    have of1: "opened_from (Some T') T1" unfolding T1_def by (rule opened_from_getFileList)
    have eq: "opened_of (Some T1') k i = opened_of (Some T) k i" for k i
    proof (cases "k = g")
      case True
      then show ?thesis using gT was_open by (simp add: opened_of_def T1'_def update_conv')
    next
      case False
      show ?thesis
      proof (cases "map_of T1 k")
        case None
        then have "map_of T k = None" using kinds [of k] by (cases "map_of T k") auto
        then show ?thesis using None False by (simp add: opened_of_def T1'_def update_conv')
      next
        case (Some n)
        then obtain n0 where n0: "map_of T k = Some n0" "fst (node_view n) = fst (node_view n0)"
          using kinds [of k] by (cases "map_of T k") auto
        show ?thesis
        proof (cases n)
          case (FileChange f)
          then obtain f0 where "n0 = FileChange f0" using n0(2) by (cases n0) (auto simp: node_view_def)
          then show ?thesis using Some FileChange n0(1) False
            by (simp add: opened_of_def T1'_def update_conv')
        next
          case (FakePart g1)
          then obtain g0 where g0: "n0 = FakePart g0" using n0(2) by (cases n0) (auto simp: node_view_def)
          have "p_opened g1 = opened_of (Some T') k (length (p_parts g1))"
            using of1 Some FakePart unfolding opened_from_def by blast
          also have "\<dots> = p_opened g0"
            using False n0(1) g0 by (simp add: opened_of_def T'_def update_conv')
          finally show ?thesis using Some FakePart n0(1) g0 False
            by (simp add: opened_of_def T1'_def update_conv')
        qed
      qed
    qed
    have "getFileList cs (Some T1') = getFileList cs (Some T)"
      by (rule getFileList_old_cong) (rule eq)
    then have T2: "getFileList cs (Some T1') = T" by (simp add: fixT)
    have "map_of (files (state c1)) g = Some (FakePart p1)" using p1 by (simp add: c1_def state_of_def)
    from onOpenChanged_part [OF this, of True]
    have "onOpenChanged c1 g True =
        Inr \<lparr> props = (props c1)\<lparr>workingDirectory_files :=
                 getFileList_files (workingDirectory_files (props c1)) (Some T1')\<rparr>,
              state = state_of T \<rparr>"
      by (simp add: c1_def state_of_def T1'_def [symmetric] T2)
    then show ?thesis using st by simp
  qed
  show ?thesis using s1 le reopen by blast
qed


subsection \<open>Closing an opened part hides what lies directly in it\<close>

lemma map_of_shape: "map_of (shape T) k = map_option outline (map_of T k)"
  unfolding shape_def by (induction T) auto

lemma shape_update: "shape (AList.update k v T) = AList.update k (outline v) (shape T)"
  unfolding shape_def by (induction T) auto

lemma shape_attach:
  assumes "shape T1 = shape T2"
  shows "shape (attach_status f k T1) = shape (attach_status f k T2)"
proof -
  have e: "map_option outline (map_of T1 k) = map_option outline (map_of T2 k)"
    using assms by (metis map_of_shape)
  show ?thesis
  proof (cases "kind (f_status f) = Conflicted")
    case False
    then show ?thesis using assms by (simp add: attach_status_def)
  next
    case True
    show ?thesis
    proof (cases "map_of T1 k")
      case None
      then have "map_of T2 k = None" using e by simp
      then show ?thesis using None assms by (simp add: attach_status_def)
    next
      case (Some n1)
      then obtain n2 where n2: "map_of T2 k = Some n2" "outline n1 = outline n2"
        using e by (cases "map_of T2 k") auto
      show ?thesis
      proof (cases n1)
        case (FileChange f1)
        then obtain f2 where "n2 = FileChange f2" using n2(2) by (cases n2) (auto simp: outline_def)
        then show ?thesis using Some FileChange n2(1) assms by (simp add: attach_status_def)
      next
        case (FakePart c1)
        then obtain c2 where c2: "n2 = FakePart c2" using n2(2) by (cases n2) (auto simp: outline_def)
        have eq: "outline (FakePart c1) = outline (FakePart c2)" using n2(2) FakePart c2 by simp
        then have st: "p_status c1 = p_status c2" by (simp add: outline_def)
        have "outline (FakePart (c1\<lparr>p_status := x\<rparr>)) = outline (FakePart (c2\<lparr>p_status := x\<rparr>))" for x
          using eq by (simp add: outline_def)
        then show ?thesis
          using Some FakePart n2(1) c2 assms st True
          by (simp add: attach_status_def shape_update)
      qed
    qed
  qed
qed

lemma shape_forEach_body:
  assumes "shape (prev s1) = shape (prev s2)" and "index s1 = index s2"
  shows "shape (prev (forEach_body old1 f pp arr s1 i)) = shape (prev (forEach_body old2 f pp arr s2 i)) \<and>
         index (forEach_body old1 f pp arr s1 i) = index (forEach_body old2 f pp arr s2 i)"
proof (cases "skips pp arr i")
  case True
  have "shape (attach_status f k (prev s1)) = shape (attach_status f k (prev s2))" for k
    by (rule shape_attach [OF assms(1)])
  then show ?thesis using True assms(2) by (simp add: forEach_body_eq)
next
  case False
  have "outline (FakePart (new_part old1 f arr i (reset_parent i s1))) =
        outline (FakePart (new_part old2 f arr i (reset_parent i s2)))"
    using assms(2) by (simp add: outline_def new_part_def)
  then show ?thesis using False assms by (simp add: forEach_body_eq shape_update)
qed

lemma shape_fold:
  assumes "shape (prev s1) = shape (prev s2)" and "index s1 = index s2"
  shows "shape (prev (fold (\<lambda>i s'. forEach_body old1 f pp arr s' i) xs s1)) =
         shape (prev (fold (\<lambda>i s'. forEach_body old2 f pp arr s' i) xs s2)) \<and>
         index (fold (\<lambda>i s'. forEach_body old1 f pp arr s' i) xs s1) =
         index (fold (\<lambda>i s'. forEach_body old2 f pp arr s' i) xs s2)"
  using assms
proof (induction xs arbitrary: s1 s2)
  case Nil
  then show ?case by simp
next
  case (Cons x xs)
  have a: "shape (prev (forEach_body old1 f pp arr s1 x)) = shape (prev (forEach_body old2 f pp arr s2 x))"
    and b: "index (forEach_body old1 f pp arr s1 x) = index (forEach_body old2 f pp arr s2 x)"
    using shape_forEach_body [OF Cons.prems] by auto
  show ?case using Cons.IH [OF a b] by simp
qed

lemma shape_reduce_body:
  assumes "shape (prev s1) = shape (prev s2)" and "index s1 = index s2"
  shows "shape (prev (fst (reduce_body old1 pf s1 f))) = shape (prev (fst (reduce_body old2 pf s2 f))) \<and>
         index (fst (reduce_body old1 pf s1 f)) = index (fst (reduce_body old2 pf s2 f))"
proof (cases "expands f")
  case True
  have "shape (prev (forEach_parts old1 f (previous_parts pf) (parts_of f) s1)) =
        shape (prev (forEach_parts old2 f (previous_parts pf) (parts_of f) s2)) \<and>
        index (forEach_parts old1 f (previous_parts pf) (parts_of f) s1) =
        index (forEach_parts old2 f (previous_parts pf) (parts_of f) s2)"
    unfolding forEach_parts_def by (rule shape_fold [OF assms])
  then show ?thesis
    by (simp add: reduce_body_expands [OF True] fst_store_file shape_update outline_def)
next
  case False
  then show ?thesis using assms
    by (simp add: reduce_body_plain fst_store_file shape_update outline_def)
qed

lemma shape_run_files:
  assumes "shape (prev s1) = shape (prev s2)" and "index s1 = index s2"
  shows "shape (prev (run_files old1 pf s1 fs)) = shape (prev (run_files old2 pf s2 fs))"
  using assms
proof (induction fs arbitrary: pf s1 s2)
  case Nil
  then show ?case by simp
next
  case (Cons f fs)
  have a: "shape (prev (fst (reduce_body old1 pf s1 f))) = shape (prev (fst (reduce_body old2 pf s2 f)))"
    and b: "index (fst (reduce_body old1 pf s1 f)) = index (fst (reduce_body old2 pf s2 f))"
    using shape_reduce_body [OF Cons.prems] by auto
  show ?case using Cons.IH [OF a b] by simp
qed

lemma shape_getFileList: "shape (getFileList changes old1) = shape (getFileList changes old2)"
  unfolding getFileList_run by (rule shape_run_files) simp_all


lemma one_node_extends:
  assumes "one_node T n" and "extends T T'" and "same_view n n'"
  shows "one_node T' n'"
proof (cases n)
  case (FakePart q)
  then show ?thesis using assms(3) by (cases n') (auto simp: one_node_def)
next
  case (FileChange f)
  then have n': "n' = FileChange f" using assms(3) by (cases n') auto
  show ?thesis
  proof (cases "expands f \<and> length (parts_of f) = 1 \<and> f_shown f")
    case False
    then show ?thesis by (auto simp: n' one_node_def)
  next
    case True
    then obtain p where p: "map_of T (join (parts_of f)) = Some (FakePart p)" "p_opened p"
      using assms(1) FileChange by (auto simp: one_node_def)
    from assms(2) p(1) obtain m where m: "map_of T' (join (parts_of f)) = Some m" "same_view (FakePart p) m"
      unfolding extends_def by blast
    then obtain p' where "m = FakePart p'" "p_opened p' = p_opened p" by (cases m) auto
    then show ?thesis using m(1) p(2) by (auto simp: n' one_node_def)
  qed
qed

lemma one_ok_extends:
  assumes "one_ok T" and "extends T T'"
    and "\<And>k n'. map_of T' k = Some n' \<Longrightarrow> map_of T k = None \<Longrightarrow> one_node T' n'"
  shows "one_ok T'"
  unfolding one_ok_def
proof (intro allI impI)
  fix k n' assume a: "map_of T' k = Some n'"
  show "one_node T' n'"
  proof (cases "map_of T k")
    case None
    then show ?thesis using assms(3) a by simp
  next
    case (Some n)
    with assms(2) a have "same_view n n'" unfolding extends_def by fastforce
    moreover have "one_node T n" using assms(1) Some by (simp add: one_ok_def)
    ultimately show ?thesis using assms(2) one_node_extends by blast
  qed
qed

lemma one_ok_forEach_body:
  assumes "one_ok (prev s)" and "\<not> skips pp arr i \<Longrightarrow> map_of (prev s) (part_ident arr i) = None"
  shows "one_ok (prev (forEach_body oldList f pp arr s i))"
proof (cases "skips pp arr i")
  case True
  show ?thesis
    unfolding prev_forEach_body if_P [OF True]
    by (rule one_ok_extends [OF assms(1) extends_attach]) (simp add: attach_status_None)
next
  case False
  show ?thesis
    unfolding prev_forEach_body if_not_P [OF False]
    by (rule one_ok_extends [OF assms(1) extends_fresh [OF assms(2) [OF False]]])
       (auto simp: update_conv' one_node_def split: if_splits)
qed

lemma one_ok_forEach:
  assumes ok: "pass_ok s" and keys: "map fst (prev s) = ws"
    and dist: "distinct (ws @ created_ids pp arr [0..<length arr])"
    and hd: "arr \<noteq> [] \<Longrightarrow> hd arr \<noteq> []"
    and carried: "\<forall>i<length arr. skips pp arr i \<longrightarrow>
        map_of (fakePartsAcc s) (join (take (Suc i) arr)) \<noteq> None"
    and one: "one_ok (prev s)"
    and m: "m \<le> length arr"
  shows "one_ok (prev (fold (\<lambda>i s'. forEach_body oldList f pp arr s' i) [0..<m] s))"
  using m
proof (induction m)
  case 0
  then show ?case using one by simp
next
  case (Suc m)
  define sm where "sm = fold (\<lambda>i s'. forEach_body oldList f pp arr s' i) [0..<m] s"
  have m: "m \<le> length arr" "m < length arr" using Suc.prems by simp_all
  have k: "map fst (prev sm) = ws @ created_ids pp arr [0..<m]"
    using forEach_pass_ok [OF ok keys dist hd carried m(1), of oldList f] by (simp add: sm_def)
  have o: "one_ok (prev sm)" unfolding sm_def by (rule Suc.IH [OF m(1)])
  have fresh: "map_of (prev sm) (part_ident arr m) = None" if "\<not> skips pp arr m"
  proof -
    have "part_ident arr m \<notin> set (map fst (prev sm))"
      unfolding k by (rule created_fresh [OF dist m(2) that])
    then show ?thesis by (simp add: map_of_eq_None_iff)
  qed
  have "one_ok (prev (forEach_body oldList f pp arr sm m))"
    by (rule one_ok_forEach_body [OF o fresh])
  then show ?case by (simp add: sm_def)
qed

lemma one_ok_reduce_body:
  assumes ok: "pass_ok s" and keys: "map fst (prev s) = ws"
    and dist: "distinct (ws @ stored_by pf f)"
    and gr: "grouped_step pf f" and ca: "carried_prev s pf"
    and one: "one_ok (prev s)"
  shows "one_ok (prev (fst (reduce_body oldList pf s f)))"
proof (cases "expands f")
  case False
  have fr: "f_id f \<notin> set (map fst (prev s))" using dist False keys by (simp add: stored_by_def)
  then have fresh: "map_of (prev s) (f_id f) = None" by (simp add: map_of_eq_None_iff)
  have "one_ok (AList.update (f_id f) (FileChange (f\<lparr>f_shown := True, f_index := index s\<rparr>)) (prev s))"
    by (rule one_ok_extends [OF one extends_fresh [OF fresh]])
       (use False in \<open>auto simp: update_conv' one_node_def split: if_splits\<close>)
  then show ?thesis by (simp add: reduce_body_plain [OF False] fst_store_file)
next
  case True
  define arr where "arr = parts_of f"
  define s1 where "s1 = forEach_parts oldList f (previous_parts pf) arr s"
  define cr where "cr = created_ids (previous_parts pf) arr [0..<length arr]"
  have sb: "stored_by pf f = cr @ [f_id f]" using True by (simp add: stored_by_def cr_def arr_def)
  have d1: "distinct (ws @ created_ids (previous_parts pf) arr [0..<length arr])"
    using dist by (simp add: sb cr_def)
  have hd: "arr \<noteq> [] \<Longrightarrow> hd arr \<noteq> []" using gr True by (simp add: grouped_step_def arr_def)
  have car: "\<forall>i<length arr. skips (previous_parts pf) arr i \<longrightarrow>
      map_of (fakePartsAcc s) (join (take (Suc i) arr)) \<noteq> None"
    unfolding arr_def by (rule carried_from_grouped [OF gr ca True])
  have l: "pass_ok s1 \<and> map fst (prev s1) = ws @ cr"
    using forEach_pass_ok [OF ok keys d1 hd car order_refl, of oldList f]
    by (simp add: s1_def forEach_parts_def cr_def)
  have o1: "one_ok (prev s1)"
    unfolding s1_def forEach_parts_def by (rule one_ok_forEach [OF ok keys d1 hd car one order_refl])
  have fr: "f_id f \<notin> set (map fst (prev s1))" using dist l by (simp add: sb)
  then have fresh: "map_of (prev s1) (f_id f) = None" by (simp add: map_of_eq_None_iff)
  define f' where "f' = f\<lparr>f_shown := file_shown s1 arr, f_index := index s1\<rparr>"
  have ef: "expands f'" "parts_of f' = arr" using True by (simp_all add: f'_def arr_def)
  have new: "one_node (AList.update (f_id f) (FileChange f') (prev s1)) (FileChange f')"
  proof (cases "length arr = 1 \<and> f_shown f'")
    case False
    then show ?thesis using ef by (auto simp: one_node_def)
  next
    case t: True
    then have sh: "file_shown s1 arr" by (simp add: f'_def)
    then obtain p where p: "file_parent s1 arr = Some p" "p_opened p"
      using t by (cases "file_parent s1 arr") (auto simp: file_shown_def)
    then have "map_of (fakePartsAcc s1) (join arr) = Some p"
      using t by (auto simp: file_parent_def split: if_splits)
    then obtain c where c: "map_of (prev s1) (join arr) = Some (FakePart c)" "p_opened c = p_opened p"
      using l unfolding pass_ok_def acc_fake_def by blast
    have ne: "join arr \<noteq> f_id f" using c(1) fresh by auto
    show ?thesis using c p(2) ne ef by (auto simp: one_node_def update_conv')
  qed
  have "one_ok (AList.update (f_id f) (FileChange f') (prev s1))"
  proof (rule one_ok_extends [OF o1 extends_fresh [OF fresh]])
    fix k n' assume a: "map_of (AList.update (f_id f) (FileChange f') (prev s1)) k = Some n'"
      and b: "map_of (prev s1) k = None"
    then have "n' = FileChange f'" by (auto simp: update_conv' split: if_splits)
    then show "one_node (AList.update (f_id f) (FileChange f') (prev s1)) n'" using new by simp
  qed
  then show ?thesis
    by (simp add: reduce_body_expands [OF True] fst_store_file s1_def [symmetric] arr_def [symmetric] f'_def)
qed

lemma run_files_one_ok:
  assumes "pass_ok s" and "map fst (prev s) = ws" and "distinct (ws @ stored_ids pf fs)"
    and "grouped pf fs" and "carried_prev s pf" and "one_ok (prev s)"
  shows "one_ok (prev (run_files oldList pf s fs))"
  using assms
proof (induction fs arbitrary: s ws pf)
  case Nil
  then show ?case by simp
next
  case (Cons f fs)
  have d1: "distinct (ws @ stored_by pf f)" using Cons.prems(3) by auto
  have g1: "grouped_step pf f" and g2: "grouped (Some f) fs" using Cons.prems(4) by simp_all
  note st = reduce_body_pass_ok [OF Cons.prems(1,2) d1 g1 Cons.prems(5), of oldList]
  note on = one_ok_reduce_body [OF Cons.prems(1,2) d1 g1 Cons.prems(5,6), of oldList]
  have d2: "distinct ((ws @ stored_by pf f) @ stored_ids (Some f) fs)" using Cons.prems(3) by auto
  show ?case
    using Cons.IH [OF conjunct1 [OF st] conjunct1 [OF conjunct2 [OF st]] d2 g2 conjunct2 [OF conjunct2 [OF st]] on]
    by simp
qed

lemma one_ok_getFileList:
  assumes "grouped None changes" and "distinct (stored_ids None changes)"
  shows "one_ok (getFileList changes oldList)"
proof -
  have "one_ok (prev (run_files oldList None init_state changes))"
    by (rule run_files_one_ok [OF pass_ok_init, where ws = "[]"])
       (use assms in \<open>simp_all add: init_state_def carried_prev_def one_ok_def\<close>)
  then show ?thesis by (simp add: getFileList_run)
qed

lemma shown_count_less:
  assumes "list_all2 (view_le True) (views T1) (views T2)" and "i < length T2"
    and "node_shown (snd (T2 ! i))" and "\<not> node_shown (snd (T1 ! i))"
  shows "length (filter node_shown (map snd T1)) < length (filter node_shown (map snd T2))"
  using assms
proof (induction T1 arbitrary: T2 i)
  case Nil
  then show ?case by (simp add: views_def)
next
  case (Cons a T1)
  then obtain c T2' where t: "T2 = c # T2'" by (cases T2) (auto simp: views_def)
  have h: "view_le True (fst a, node_view (snd a)) (fst c, node_view (snd c))"
    and r: "list_all2 (view_le True) (views T1) (views T2')"
    using Cons.prems(1) by (auto simp: t views_def)
  have hd: "node_shown (snd a) \<Longrightarrow> node_shown (snd c)"
    using h by (cases "snd a"; cases "snd c") (auto simp: view_le_def node_view_def)
  show ?case
  proof (cases i)
    case 0
    then have "node_shown (snd c)" "\<not> node_shown (snd a)" using Cons.prems(3,4) by (simp_all add: t)
    then show ?thesis using shown_count_le [OF r] by (simp add: t)
  next
    case (Suc j)
    have "length (filter node_shown (map snd T1)) < length (filter node_shown (map snd T2'))"
      by (rule Cons.IH [OF r, of j]) (use Cons.prems(2,3,4) Suc in \<open>simp_all add: t\<close>)
    then show ?thesis using hd by (auto simp: t)
  qed
qed

lemma same_position:
  assumes "list_all2 (view_le b) (views T1) (views T2)" and "i < length T2"
  shows "i < length T1 \<and> fst (T1 ! i) = fst (T2 ! i)"
proof -
  have l: "length T1 = length T2" using list_all2_lengthD [OF assms(1)] by (simp add: views_def)
  have "view_le b (views T1 ! i) (views T2 ! i)"
    using list_all2_nthD2 [OF assms(1), of i] assms(2) by (simp add: views_def)
  then show ?thesis using l assms(2) by (simp add: views_def view_le_def)
qed

lemma outline_part:
  assumes "outline n1 = outline (FakePart q)"
  shows "\<exists>q1. n1 = FakePart q1 \<and> p_parts q1 = p_parts q"
  using assms by (cases n1) (auto simp: outline_def)

lemma outline_file:
  assumes "outline n1 = outline (FileChange f)"
  shows "\<exists>f1. n1 = FileChange f1 \<and> expands f1 = expands f \<and> parts_of f1 = parts_of f"
  using assms by (cases n1) (auto simp: outline_def expands_def parts_of_def split: option.splits)

lemma close_hides_child:
  assumes gr: "grouped None cs" and di: "distinct (stored_ids None cs)"
    and fixT: "getFileList cs (Some T) = T"
    and g: "map_of T g = Some (FakePart p)" and was_open: "p_opened p"
    and ch: "map_of T k = Some n" "child_to_hide g n"
  shows "length (filter node_shown (map snd
            (getFileList cs (Some (AList.update g (FakePart (p\<lparr>p_opened := False\<rparr>)) T))))) <
         length (filter node_shown (map snd T))"
proof -
  define T' where "T' = AList.update g (FakePart (p\<lparr>p_opened := False\<rparr>)) T"
  define T1 where "T1 = getFileList cs (Some T')"
  have ok: "nodes_ok T" using nodes_ok_getFileList [OF gr di, of "Some T"] by (simp add: fixT)
  have ok1: "nodes_ok T1" unfolding T1_def by (rule nodes_ok_getFileList [OF gr di])
  have le: "list_all2 (view_le True) (views T1) (views T)"
    using getFileList_le [OF opened_of_closed [OF g], of cs] by (simp add: T1_def T'_def fixT)
  have sh: "shape T1 = shape T"
    using shape_getFileList [of cs "Some T'" "Some T"] by (simp add: T1_def fixT)
  have d1: "distinct (map fst T1)"
    using counted_getFileList(2) [OF di, of "Some T'"] di by (simp add: T1_def)
  have of1: "opened_from (Some T') T1" unfolding T1_def by (rule opened_from_getFileList)
  have kg: "k \<noteq> g"
  proof
    assume "k = g"
    then have "n = FakePart p" using ch(1) g by simp
    then show False using ch(2) was_open by (simp add: child_to_hide_def)
  qed
  have look: "map_option outline (map_of T1 x) = map_option outline (map_of T x)" for x
    using sh by (metis map_of_shape)
  obtain n1 where n1: "map_of T1 k = Some n1" "outline n1 = outline n"
    using look [of k] ch(1) by (cases "map_of T1 k") auto
  obtain m where m: "map_of T1 g = Some m" "outline m = outline (FakePart p)"
    using look [of g] g by (cases "map_of T1 g") auto
  then obtain p1 where p1: "map_of T1 g = Some (FakePart p1)" using outline_part by blast
  have cl: "\<not> p_opened p1"
    using of1 p1 unfolding opened_from_def by (auto simp: opened_of_def T'_def update_conv')
  have hid: "node_shown n \<and> \<not> node_shown n1"
  proof (cases n)
    case (FakePart q)
    then have q: "p_parts q \<noteq> []" "join (p_parts q) = g" "\<not> p_opened q"
      using ch(2) by (simp_all add: child_to_hide_def)
    obtain q1 where q1: "n1 = FakePart q1" "p_parts q1 = p_parts q"
      using outline_part n1(2) FakePart by blast
    have "ok_part T q" using ok ch(1) FakePart unfolding nodes_ok_def by fastforce
    then have a: "p_shown q" using q g was_open by (simp add: ok_part_def)
    have "ok_part T1 q1" using ok1 n1(1) q1(1) unfolding nodes_ok_def by fastforce
    then have b: "p_shown q1 = (p_opened q1 \<or> p_opened p1)"
      using q q1(2) p1 by (simp add: ok_part_def)
    have "p_opened q1 = opened_of (Some T') k (length (p_parts q1))"
      using of1 n1(1) q1(1) unfolding opened_from_def by blast
    then have "\<not> p_opened q1"
      using kg ch(1) FakePart q(3) by (simp add: opened_of_def T'_def update_conv')
    then show ?thesis using a b cl FakePart q1(1) by simp
  next
    case (FileChange f)
    then have f: "expands f" "parts_of f \<noteq> []" "join (parts_of f) = g" "f_shown f"
      using ch(2) by (simp_all add: child_to_hide_def)
    obtain f1 where f1: "n1 = FileChange f1" "expands f1 = expands f" "parts_of f1 = parts_of f"
      using outline_file n1(2) FileChange by blast
    have "\<not> f_shown f1"
    proof (cases "length (parts_of f) = 1")
      case True
      have "one_node T1 (FileChange f1)"
        using one_ok_getFileList [OF gr di, of "Some T'"] n1(1) f1(1)
        unfolding T1_def [symmetric] one_ok_def by blast
      then show ?thesis using True f f1(2,3) p1 cl by (auto simp: one_node_def)
    next
      case False
      have "ok_file T1 f1" using ok1 n1(1) f1(1) unfolding nodes_ok_def by fastforce
      then have "f_shown f1 = p_opened p1" using f f1(2,3) False p1 by (simp add: ok_file_def)
      then show ?thesis using cl by simp
    qed
    then show ?thesis using f(4) FileChange f1(1) by simp
  qed
  have "(k, n) \<in> set T" using ch(1) by (rule map_of_SomeD)
  then obtain i where i: "i < length T" "T ! i = (k, n)" by (auto simp: in_set_conv_nth)
  have pos: "i < length T1" "fst (T1 ! i) = k"
    using same_position [OF le i(1)] i(2) by simp_all
  have "(fst (T1 ! i), snd (T1 ! i)) \<in> set T1" using pos(1) by simp
  then have "map_of T1 k = Some (snd (T1 ! i))"
    using d1 pos(2) by (metis map_of_is_SomeI)
  then have "snd (T1 ! i) = n1" using n1(1) by simp
  then have "length (filter node_shown (map snd T1)) < length (filter node_shown (map snd T))"
    using hid i by (intro shown_count_less [OF le, of i]) simp_all
  then show ?thesis by (simp add: T1_def T'_def)
qed

text \<open>
  C8, amended.  Take a component whose table is the one a pass over its change list
  gives from that table, and whose visible list is the projection of the table, and a
  part \<open>g\<close> of the table.  Toggling \<open>g\<close> closed returns, and the projection after it is
  at most as long as before.  It is strictly shorter when \<open>g\<close> was opened, the change
  list is one on which the skip-if-unchanged rule is sound and in whose pass no
  identifier is stored twice, and the table has a node directly in \<open>g\<close> that is a part
  not opened itself or a change record that is shown.  If \<open>g\<close> was opened,
  toggling it open again returns and restores the table and the projection exactly.
  The first hypothesis holds after the constructor and after every toggle when no
  identifier is stored twice (\<open>constructor_fixed_point\<close>, \<open>onOpenChanged_fixed_point\<close>).
\<close>

theorem toggle_closed_then_open:
  assumes fixp: "getFileList (workingDirectory_files (props c)) (Some (files (state c))) = files (state c)"
    and vis: "visibleFileList (state c) = getOpenedFilesList (files (state c))"
    and g: "map_of (files (state c)) g = Some (FakePart p)"
  shows "\<exists>c1. onOpenChanged c g False = Inr c1 \<and>
              length (visibleFileList (state c1)) \<le> length (visibleFileList (state c)) \<and>
              (p_opened p \<and> grouped None (workingDirectory_files (props c)) \<and>
               distinct (stored_ids None (workingDirectory_files (props c))) \<and>
               (\<exists>k n. map_of (files (state c)) k = Some n \<and> child_to_hide g n) \<longrightarrow>
                 length (visibleFileList (state c1)) < length (visibleFileList (state c))) \<and>
              (p_opened p \<longrightarrow> (\<exists>c2. onOpenChanged c1 g True = Inr c2 \<and> state c2 = state c))"
proof -
  obtain c1 where c1: "onOpenChanged c g False = Inr c1"
      "length (visibleFileList (state c1)) \<le> length (visibleFileList (state c))"
      "p_opened p \<longrightarrow> (\<exists>c2. onOpenChanged c1 g True = Inr c2 \<and> state c2 = state c)"
    using toggle_closed_not_longer [OF fixp vis g] by blast
  have s1: "state c1 = state_of (getFileList (workingDirectory_files (props c))
      (Some (AList.update g (FakePart (p\<lparr>p_opened := False\<rparr>)) (files (state c)))))"
    using c1(1) onOpenChanged_part [OF g, of False] by auto
  have "length (visibleFileList (state c1)) < length (visibleFileList (state c))"
    if h: "p_opened p" "grouped None (workingDirectory_files (props c))"
      "distinct (stored_ids None (workingDirectory_files (props c)))"
      "\<exists>k n. map_of (files (state c)) k = Some n \<and> child_to_hide g n"
  proof -
    from h(4) obtain k n where ch: "map_of (files (state c)) k = Some n" "child_to_hide g n" by blast
    show ?thesis
      using close_hides_child [OF h(2,3) fixp g h(1) ch]
      by (simp add: s1 vis state_of_def length_getOpenedFilesList)
  qed
  then show ?thesis using c1 by blast
qed

subsection \<open>The example component\<close>

lemma visible_constructor:
  "visibleFileList (state (ChangesList_constructor p)) = getOpenedFilesList (files (state (ChangesList_constructor p)))"
  by (simp add: ChangesList_constructor_def Let_def)

lemma visible_toggled:
  "visibleFileList (state c) = getOpenedFilesList (files (state c)) \<Longrightarrow>
   visibleFileList (state (toggled c g b)) = getOpenedFilesList (files (state (toggled c g b)))"
  by (simp add: toggled_def onOpenChanged_def Let_def
      split: option.split TFileOrSketchPartChange.split)

lemma records_constructor:
  "list_all2 same_record (workingDirectory_files (props (ChangesList_constructor (no_selection changes)))) changes"
  by (simp add: ChangesList_constructor_def Let_def no_selection_def getFileList_files_same_record)

lemma list_all2_same_record_trans:
  "list_all2 same_record xs ys \<Longrightarrow> list_all2 same_record ys zs \<Longrightarrow> list_all2 same_record xs zs"
  by (rule list_all2_trans [of same_record same_record same_record]) (rule same_record_trans)

lemma records_toggled:
  assumes "list_all2 same_record (workingDirectory_files (props c)) changes"
  shows "list_all2 same_record (workingDirectory_files (props (toggled c g b))) changes"
proof (cases "map_of (files (state c)) g")
  case None
  then show ?thesis using assms by (simp add: toggled_def onOpenChanged_def)
next
  case (Some n)
  show ?thesis
  proof (cases n)
    case (FileChange f)
    then show ?thesis using Some assms by (simp add: toggled_def onOpenChanged_def)
  next
    case (FakePart p)
    then show ?thesis using Some
      by (simp add: toggled_def onOpenChanged_def Let_def
          list_all2_same_record_trans [OF getFileList_files_same_record assms])
  qed
qed

lemma component_open_records:
  "list_all2 same_record (workingDirectory_files (props component_open)) [file_B]"
  unfolding component_open_def by (intro records_toggled records_constructor)

lemma component_open_visible:
  "visibleFileList (state component_open) = getOpenedFilesList (files (state component_open))"
  unfolding component_open_def by (intro visible_toggled visible_constructor)

lemma component_open_files: "files (state component_open) = table_open"
  by (simp add: component_open_def toggled_def onOpenChanged_def ChangesList_constructor_def no_selection_def
      eval_pass file_B_def table_open_def Let_def)

lemma table_open_pass: "getFileList [file_B] (Some table_open) = table_open"
  by (simp add: eval_pass file_B_def table_open_def)

lemma close_page_pass:
  "getFileList [file_B]
     (Some (AList.update ''doc.sketch/page1''
        (FakePart (\<lparr> p_opened = True, p_shown = True, p_index = 1, p_type = PageFile,
           p_id = ''doc.sketch/page1'', p_parts = [''doc.sketch''], p_name = ''page1'',
           p_status = None \<rparr>\<lparr>p_opened := False\<rparr>)) table_open)) = table_C"
  by (simp add: eval_pass file_B_def table_open_def table_C_def)

lemma length_visible_table_open: "length (getOpenedFilesList table_open) = 4"
  by (simp add: length_getOpenedFilesList table_open_def)

lemma length_visible_table_C: "length (getOpenedFilesList table_C) = 4"
  by (simp add: length_getOpenedFilesList table_C_def)

text \<open>A part that is closed: toggling it closed changes nothing, and toggling it open
  afterwards does not lead back, the projection has one row more.\<close>

lemma reopen_closed_part:
  "length (visibleFileList (state (ChangesList_constructor (no_selection [file_B])))) = 2 \<and>
   (\<exists>c1 c2. onOpenChanged (ChangesList_constructor (no_selection [file_B])) ''doc.sketch/page1'' False = Inr c1 \<and>
      state c1 = state (ChangesList_constructor (no_selection [file_B])) \<and>
      onOpenChanged c1 ''doc.sketch/page1'' True = Inr c2 \<and>
      length (visibleFileList (state c2)) = 3)"
  by (simp add: onOpenChanged_def ChangesList_constructor_def no_selection_def eval_pass file_B_def Let_def
      length_getOpenedFilesList)

lemma constructor_B_files:
  "files (state (ChangesList_constructor (no_selection [file_B]))) = table_B file_B"
  by (simp add: ChangesList_constructor_def no_selection_def eval_pass file_B_def table_B_def
      part_doc_def part_page1_def part_layer1_def status_B_def Let_def)

lemma constructor_B_records:
  "workingDirectory_files (props (ChangesList_constructor (no_selection [file_B]))) = [file_B\<lparr>f_index := 3\<rparr>]"
  by code_simp

lemma stale_component_eval:
  "length (visibleFileList (state stale_component)) = 2 \<and>
   (\<exists>c1. onOpenChanged stale_component ''doc.sketch'' False = Inr c1 \<and>
         length (visibleFileList (state c1)) = 3)"
  by (simp add: stale_component_def componentWillReceiveProps_def arrayEquals_def onOpenChanged_def
      ChangesList_constructor_def no_selection_def eval_pass file_B_def readme_def file_A1_def Let_def
      length_getOpenedFilesList)

text \<open>
  C8, as stated, fails: with the page and the layer opened, the projection has four
  rows; toggling the opened page closed leaves the layer and the change record in it
  shown, and the projection still has four rows.  And in the component whose table has
  not been rebuilt for its new change list, the projection has two rows and toggling
  the opened document closed gives three.
\<close>

theorem toggle_closed_counterexample:
  "map_of (files (state component_open)) ''doc.sketch/page1'' =
     Some (FakePart \<lparr> p_opened = True, p_shown = True, p_index = 1, p_type = PageFile,
         p_id = ''doc.sketch/page1'', p_parts = [''doc.sketch''], p_name = ''page1'',
         p_status = None \<rparr>) \<and>
   length (visibleFileList (state component_open)) = 4 \<and>
   (\<exists>c1. onOpenChanged component_open ''doc.sketch/page1'' False = Inr c1 \<and>
         files (state c1) = table_C \<and> length (visibleFileList (state c1)) = 4) \<and>
   length (visibleFileList (state stale_component)) = 2 \<and>
   (\<exists>c1. onOpenChanged stale_component ''doc.sketch'' False = Inr c1 \<and>
         length (visibleFileList (state c1)) = 3)"
proof -
  have g: "map_of (files (state component_open)) ''doc.sketch/page1'' =
     Some (FakePart \<lparr> p_opened = True, p_shown = True, p_index = 1, p_type = PageFile,
         p_id = ''doc.sketch/page1'', p_parts = [''doc.sketch''], p_name = ''page1'',
         p_status = None \<rparr>)"
    unfolding component_open_files by (simp add: table_open_def)
  have l: "length (visibleFileList (state component_open)) = 4"
    unfolding component_open_visible component_open_files by (rule length_visible_table_open)
  have p: "getFileList (workingDirectory_files (props component_open)) old = getFileList [file_B] old" for old
    by (rule getFileList_same_record [OF component_open_records])
  have "\<exists>c1. onOpenChanged component_open ''doc.sketch/page1'' False = Inr c1 \<and>
          state c1 = state_of table_C"
    unfolding onOpenChanged_part [OF g] p component_open_files close_page_pass by simp
  then have "\<exists>c1. onOpenChanged component_open ''doc.sketch/page1'' False = Inr c1 \<and>
         files (state c1) = table_C \<and> length (visibleFileList (state c1)) = 4"
    by (auto simp: state_of_def length_visible_table_C)
  with g l stale_component_eval show ?thesis by blast
qed

text \<open>The amended property at the component over the one change record, for the
  document, which is opened and has the closed page directly in it.\<close>

theorem toggle_closed_then_open_witness:
  "getFileList (workingDirectory_files (props (ChangesList_constructor (no_selection [file_B]))))
     (Some (files (state (ChangesList_constructor (no_selection [file_B]))))) =
     files (state (ChangesList_constructor (no_selection [file_B]))) \<and>
   visibleFileList (state (ChangesList_constructor (no_selection [file_B]))) =
     getOpenedFilesList (files (state (ChangesList_constructor (no_selection [file_B])))) \<and>
   map_of (files (state (ChangesList_constructor (no_selection [file_B])))) ''doc.sketch'' =
     Some (FakePart (part_doc file_B)) \<and>
   p_opened (part_doc file_B) \<and>
   grouped None (workingDirectory_files (props (ChangesList_constructor (no_selection [file_B])))) \<and>
   distinct (stored_ids None (workingDirectory_files (props (ChangesList_constructor (no_selection [file_B]))))) \<and>
   map_of (files (state (ChangesList_constructor (no_selection [file_B])))) ''doc.sketch/page1'' =
     Some (FakePart (part_page1 file_B)) \<and>
   child_to_hide ''doc.sketch'' (FakePart (part_page1 file_B)) \<and>
   (\<exists>c1 c2. onOpenChanged (ChangesList_constructor (no_selection [file_B])) ''doc.sketch'' False = Inr c1 \<and>
      length (visibleFileList (state c1)) <
        length (visibleFileList (state (ChangesList_constructor (no_selection [file_B])))) \<and>
      onOpenChanged c1 ''doc.sketch'' True = Inr c2 \<and>
      state c2 = state (ChangesList_constructor (no_selection [file_B])))"
proof -
  let ?c = "ChangesList_constructor (no_selection [file_B])"
  have d: "distinct (stored_ids None (workingDirectory_files (props ?c)))"
    unfolding constructor_B_records
    by (simp add: stored_by_def created_ids_def eval_pass file_B_def)
  have gr: "grouped None (workingDirectory_files (props ?c))"
    unfolding constructor_B_records
    by (simp add: grouped_step_def expands_def parts_of_def previous_parts_def skips_def file_B_def)
  have f: "getFileList (workingDirectory_files (props ?c)) (Some (files (state ?c))) = files (state ?c)"
    unfolding constructor_B_files constructor_B_records
    by (simp add: eval_pass file_B_def table_B_def part_doc_def part_page1_def part_layer1_def status_B_def)
  have g: "map_of (files (state ?c)) ''doc.sketch'' = Some (FakePart (part_doc file_B))"
    unfolding constructor_B_files by (simp add: table_B_def)
  have k: "map_of (files (state ?c)) ''doc.sketch/page1'' = Some (FakePart (part_page1 file_B))"
    unfolding constructor_B_files by (simp add: table_B_def)
  have o: "p_opened (part_doc file_B)" by (simp add: part_doc_def)
  have ch: "child_to_hide ''doc.sketch'' (FakePart (part_page1 file_B))"
    by (simp add: child_to_hide_def part_page1_def)
  show ?thesis
    using toggle_closed_then_open [OF f visible_constructor g] f visible_constructor [of "no_selection [file_B]"]
      d gr g k o ch
    by blast
qed

section \<open>What a pass writes\<close>

subsection \<open>The callbacks on a store, branch by branch\<close>

lemma reset_parent_h_simps [simp]:
  "h_prev (reset_parent_h i s) = h_prev s"
  "h_fakePartsAcc (reset_parent_h i s) = h_fakePartsAcc s"
  "h_index (reset_parent_h i s) = h_index s"
  "h_store (reset_parent_h i s) = h_store s"
  by (simp_all add: reset_parent_h_def)

lemma forEach_body_h_eq:
  "forEach_body_h oldList fa pp arr s i =
     (if skips pp arr i
      then (reset_parent_h i s)\<lparr>h_store := attach_status_h fa (part_ident arr i) (reset_parent_h i s)\<rparr>
      else (reset_parent_h i s)\<lparr>
             h_prev := AList.update (part_ident arr i) (PartRef (next_part (h_store s))) (h_prev s),
             h_fakePartsAcc := AList.update (part_ident arr i) (next_part (h_store s)) (h_fakePartsAcc s),
             h_parentPartChange := Some (next_part (h_store s)),
             h_index := h_index s + 1,
             h_store := (h_store s)\<lparr>
               part_at := (part_at (h_store s))
                 (next_part (h_store s) := new_part_h oldList fa arr i (reset_parent_h i s)),
               next_part := Suc (next_part (h_store s))\<rparr>\<rparr>)"
proof (cases "skips pp arr i")
  case True
  then have c: "i < length pp \<and> arr ! i = pp ! i" by (simp add: skips_def)
  show ?thesis
    unfolding forEach_body_h_def Let_def reset_parent_h_def [symmetric] part_ident_def [symmetric]
      if_P [OF c] if_P [OF True]
    by (auto simp: attach_status_h_def split: option.splits node_ref.splits)
next
  case False
  then have c: "\<not> (i < length pp \<and> arr ! i = pp ! i)" by (simp add: skips_def)
  show ?thesis
    unfolding forEach_body_h_def Let_def reset_parent_h_def [symmetric] part_ident_def [symmetric]
      if_not_P [OF c] if_not_P [OF False]
    by (simp add: new_part_h_def parent_at_h_def)
qed

subsection \<open>What a pass leaves alone\<close>

lemma same_record_refl [simp]: "same_record f f"
  by (simp add: same_record_def)

lemma same_record_update [simp]: "same_record (f\<lparr>f_shown := a, f_index := b\<rparr>) f"
  by (simp add: same_record_def)

lemma frame_reset: "frame st0 A s \<Longrightarrow> frame st0 A (reset_parent_h i s)"
  by (simp add: frame_def)

lemma frame_forEach_body:
  assumes "frame st0 A s"
  shows "frame st0 A (forEach_body_h oldList fa pp arr s i)"
proof (cases "skips pp arr i")
  case True
  have old: "part_at (h_store s) a = part_at st0 a" if "a < next_part st0" for a
    using assms that by (simp add: frame_def)
  have new: "\<not> c < next_part st0" if "map_of (h_prev s) k = Some (PartRef c)" for k c
    using assms that unfolding frame_def by (meson leD)
  have "part_at (attach_status_h fa k (reset_parent_h i s)) a = part_at st0 a"
    if "a < next_part st0" for a k
    using old [OF that] new [of k a] that unfolding attach_status_h_def
    by (auto split: option.splits node_ref.splits)
  moreover have "file_at (attach_status_h fa k (reset_parent_h i s)) = file_at (h_store s)"
    and "next_part (attach_status_h fa k (reset_parent_h i s)) = next_part (h_store s)" for k
    by (auto simp: attach_status_h_def split: option.splits node_ref.splits)
  ultimately show ?thesis
    using assms True by (simp add: forEach_body_h_eq frame_def)
next
  case False
  show ?thesis
    using assms False by (auto simp: forEach_body_h_eq frame_def update_conv')
qed

lemma frame_forEach_parts:
  "frame st0 A s \<Longrightarrow> frame st0 A (forEach_parts_h oldList fa pp arr s)"
  unfolding forEach_parts_h_def
  by (rule fold_preserves [where P = "frame st0 A"]) (auto intro: frame_forEach_body)

lemma frame_parent [simp]: "frame st0 A (s\<lparr>h_parentPartChange := x\<rparr>) = frame st0 A s"
  by (simp add: frame_def)

lemma frame_store_file:
  assumes "frame st0 A s" and "fa \<in> A"
  shows "frame st0 A (store_file_h fa sh s)"
proof -
  have "same_record ((file_at (h_store s) fa)\<lparr>f_shown := sh, f_index := h_index s\<rparr>) (file_at st0 fa)"
    by (rule same_record_trans [OF same_record_update]) (use assms(1) in \<open>simp add: frame_def\<close>)
  then show ?thesis
    using assms by (auto simp: store_file_h_def Let_def frame_def update_conv')
qed

lemma frame_reduce_body:
  assumes "frame st0 A s" and "fa \<in> A"
  shows "frame st0 A (reduce_body_h oldList pf s fa)"
  unfolding reduce_body_h_def Let_def
  by (auto split: option.split intro!: frame_store_file frame_forEach_parts assms)

lemma frame_reduce_files:
  "frame st0 A s \<Longrightarrow> set fas \<subseteq> A \<Longrightarrow> frame st0 A (reduce_files_h oldList pf s fas)"
  by (induction fas arbitrary: pf s) (auto intro: frame_reduce_body)

lemma frame_init: "frame st (set fas) (init_heap_state st)"
  by (simp add: frame_def init_heap_state_def)

lemma getFileList_h_frame:
  "(\<forall>a. a \<notin> set fas \<longrightarrow> file_at (snd (getFileList_h st fas oldList)) a = file_at st a) \<and>
   (\<forall>a. same_record (file_at (snd (getFileList_h st fas oldList)) a) (file_at st a)) \<and>
   (\<forall>a. a < next_part st \<longrightarrow> part_at (snd (getFileList_h st fas oldList)) a = part_at st a)"
proof -
  have "frame st (set fas) (reduce_files_h oldList None (init_heap_state st) fas)"
    by (rule frame_reduce_files [OF frame_init subset_refl])
  then show ?thesis by (simp add: getFileList_h_def Let_def frame_def)
qed

subsection \<open>The pass on a store does what the pass on values does\<close>

lemma map_of_deref: "map_of (deref st T) k = map_option (node_of st) (map_of T k)"
  unfolding deref_def by (induction T) auto

lemma deref_update: "deref st (AList.update k r T) = AList.update k (node_of st r) (deref st T)"
  unfolding deref_def by (induction T) auto

lemma deref_cong:
  "(\<And>e. e \<in> set T \<Longrightarrow> node_of st' (snd e) = node_of st (snd e)) \<Longrightarrow> deref st' T = deref st T"
  unfolding deref_def by simp

lemma deref_write:
  assumes "distinct (map fst T)" and "map_of T k = Some r"
    and "\<And>k' r'. (k', r') \<in> set T \<Longrightarrow> k' \<noteq> k \<Longrightarrow> node_of st' r' = node_of st r'"
  shows "deref st' T = AList.update k (node_of st' r) (deref st T)"
  using assms
proof (induction T)
  case Nil
  then show ?case by simp
next
  case (Cons e T)
  show ?case
  proof (cases "fst e = k")
    case True
    then have r: "snd e = r" using Cons.prems(2) by (cases e) auto
    have "k \<notin> fst ` set T" using Cons.prems(1) True by auto
    then have "deref st' T = deref st T"
      using Cons.prems(3) by (intro deref_cong) (metis image_eqI list.set_intros(2) prod.collapse)
    then show ?thesis using True r by (cases e) (simp add: deref_def)
  next
    case False
    have a: "deref st' T = AList.update k (node_of st' r) (deref st T)"
      by (rule Cons.IH) (use Cons.prems False in \<open>auto split: if_splits\<close>)
    have "node_of st' (snd e) = node_of st (snd e)"
      using Cons.prems(3) [of "fst e" "snd e"] False by simp
    then show ?thesis using False a by (cases e) (simp add: deref_def)
  qed
qed

lemma attach_status_h_fields:
  "next_part (attach_status_h fa k s) = next_part (h_store s)"
  "file_at (attach_status_h fa k s) = file_at (h_store s)"
  "p_id (part_at (attach_status_h fa k s) a) = p_id (part_at (h_store s) a)"
  "p_opened (part_at (attach_status_h fa k s) a) = p_opened (part_at (h_store s) a)"
  by (auto simp: attach_status_h_def split: option.splits node_ref.splits)

lemma set_alist_update:
  "e \<in> set (AList.update k v T) \<Longrightarrow> e = (k, v) \<or> e \<in> set T"
  by (induction T) (auto split: if_splits)

lemma wf_forEach_body:
  assumes "wf_refs s"
  shows "wf_refs (forEach_body_h oldList fa pp arr s i)"
proof (cases "skips pp arr i")
  case True
  have "wf_refs (reset_parent_h i s)" using assms by (simp add: wf_refs_def reset_parent_h_def)
  then show ?thesis
    using True by (simp add: forEach_body_h_eq wf_refs_def attach_status_h_fields)
next
  case False
  have old: "(k, PartRef a) \<in> set (h_prev s) \<Longrightarrow> a < next_part (h_store s) \<and> p_id (part_at (h_store s) a) = k" for k a
    using assms by (simp add: wf_refs_def)
  have "distinct (map fst (AList.update (part_ident arr i) (PartRef (next_part (h_store s))) (h_prev s)))"
    using assms by (simp add: wf_refs_def distinct_update)
  moreover have "a < Suc (next_part (h_store s)) \<and>
      p_id (((part_at (h_store s))(next_part (h_store s) := new_part_h oldList fa arr i (reset_parent_h i s))) a) = k"
    if "(k, PartRef a) \<in> set (AList.update (part_ident arr i) (PartRef (next_part (h_store s))) (h_prev s))" for k a
    using set_alist_update [OF that] old [of k a] by (auto simp: new_part_h_def)
  moreover have "f_id (file_at (h_store s) a) = k"
    if "(k, FileRef a) \<in> set (AList.update (part_ident arr i) (PartRef (next_part (h_store s))) (h_prev s))" for k a
    using set_alist_update [OF that] assms by (auto simp: wf_refs_def)
  moreover have "a < Suc (next_part (h_store s))"
    if "map_of (AList.update (part_ident arr i) (next_part (h_store s)) (h_fakePartsAcc s)) k = Some a" for k a
    using that assms by (auto simp: update_conv' wf_refs_def less_Suc_eq split: if_splits)
  ultimately show ?thesis
    using False unfolding forEach_body_h_eq wf_refs_def by simp
qed

lemma wf_forEach_parts: "wf_refs s \<Longrightarrow> wf_refs (forEach_parts_h oldList fa pp arr s)"
  unfolding forEach_parts_h_def
  by (rule fold_preserves [where P = wf_refs]) (auto intro: wf_forEach_body)

lemma wf_store_file:
  assumes "wf_refs s" and "\<And>a. x = Some a \<Longrightarrow> a < next_part (h_store s)"
  shows "wf_refs (store_file_h fa sh (s\<lparr>h_parentPartChange := x\<rparr>))"
proof -
  have "f_id (((file_at (h_store s))(fa := (file_at (h_store s) fa)\<lparr>f_shown := sh, f_index := h_index s\<rparr>)) a) = k"
    if "(k, FileRef a) \<in> set (AList.update (f_id (file_at (h_store s) fa)) (FileRef fa) (h_prev s))" for k a
    using set_alist_update [OF that] assms(1) by (auto simp: wf_refs_def)
  moreover have "a < next_part (h_store s) \<and> p_id (part_at (h_store s) a) = k"
    if "(k, PartRef a) \<in> set (AList.update (f_id (file_at (h_store s) fa)) (FileRef fa) (h_prev s))" for k a
    using set_alist_update [OF that] assms(1) by (auto simp: wf_refs_def)
  ultimately show ?thesis
    using assms unfolding store_file_h_def Let_def wf_refs_def
    by (simp add: distinct_update)
qed

lemma reduce_body_h_plain:
  "\<not> expands (file_at (h_store s) fa) \<Longrightarrow> reduce_body_h oldList previousFile s fa = store_file_h fa True s"
proof (cases "f_parts (file_at (h_store s) fa)")
  case None
  then show ?thesis by (simp add: reduce_body_h_def)
next
  case (Some parts)
  assume n: "\<not> expands (file_at (h_store s) fa)"
  show ?thesis
  proof (cases "f_sketchFile (file_at (h_store s) fa)")
    case False
    show ?thesis
      unfolding reduce_body_h_def Let_def Some option.case if_P [OF False] by (rule refl)
  next
    case True
    then have a: "\<not> \<not> f_sketchFile (file_at (h_store s) fa)" by simp
    have b: "length parts = 1 \<and> parts ! 0 @ ''/'' = f_path (file_at (h_store s) fa)"
      using n Some True by (simp add: expands_def)
    show ?thesis
      unfolding reduce_body_h_def Let_def Some option.case if_not_P [OF a] if_P [OF b] by (rule refl)
  qed
qed

lemma reduce_body_h_expands:
  assumes "expands (file_at (h_store s) fa)"
  shows "reduce_body_h oldList previousFile s fa =
     store_file_h fa
       (file_shown_h (forEach_parts_h oldList fa (previous_parts_h (h_store s) previousFile)
                        (parts_of (file_at (h_store s) fa)) s) (parts_of (file_at (h_store s) fa)))
       ((forEach_parts_h oldList fa (previous_parts_h (h_store s) previousFile)
           (parts_of (file_at (h_store s) fa)) s)
          \<lparr>h_parentPartChange :=
             file_parent_h (forEach_parts_h oldList fa (previous_parts_h (h_store s) previousFile)
                              (parts_of (file_at (h_store s) fa)) s)
               (parts_of (file_at (h_store s) fa))\<rparr>)"
proof -
  obtain parts where p: "f_parts (file_at (h_store s) fa) = Some parts"
    and sk: "f_sketchFile (file_at (h_store s) fa)"
    and ns: "\<not> (length parts = 1 \<and> parts ! 0 @ ''/'' = f_path (file_at (h_store s) fa))"
    using assms by (auto simp: expands_def split: option.splits)
  have pp: "(case previousFile of None \<Rightarrow> []
       | Some pa \<Rightarrow> (case f_parts (file_at (h_store s) pa) of None \<Rightarrow> [] | Some ps \<Rightarrow> ps))
      = previous_parts_h (h_store s) previousFile"
    by (simp add: previous_parts_h_def parts_of_def split: option.split)
  have po: "parts_of (file_at (h_store s) fa) = parts" by (simp add: parts_of_def p)
  have a: "\<not> \<not> f_sketchFile (file_at (h_store s) fa)" using sk by simp
  define s1 where "s1 = forEach_parts_h oldList fa (previous_parts_h (h_store s) previousFile) parts s"
  have "reduce_body_h oldList previousFile s fa =
      (let s2 =
             (if h_parentPartChange s1 = None \<or>
                 (length parts > 1 \<and> p_id (part_at (h_store s1) (the (h_parentPartChange s1))) \<noteq> join parts)
              then s1\<lparr>h_parentPartChange := map_of (h_fakePartsAcc s1) (join parts)\<rparr>
              else if length parts \<le> 1 then s1\<lparr>h_parentPartChange := None\<rparr>
              else s1);
           sh = ((case h_parentPartChange s2 of None \<Rightarrow> False | Some p \<Rightarrow> p_opened (part_at (h_store s2) p))
                       \<or> length parts = 0)
       in store_file_h fa sh s2)"
    unfolding reduce_body_h_def Let_def p option.case if_not_P[OF a] if_not_P[OF ns] pp
    by (simp only: Let_def s1_def)
  also have "\<dots> = store_file_h fa (file_shown_h s1 parts) (s1\<lparr>h_parentPartChange := file_parent_h s1 parts\<rparr>)"
    by (simp add: file_shown_h_def file_parent_h_def Let_def cong: option.case_cong)
  finally show ?thesis unfolding po s1_def .
qed

lemma file_parent_h_allocated:
  assumes "wf_refs s" and "file_parent_h s parts = Some a"
  shows "a < next_part (h_store s)"
  using assms unfolding file_parent_h_def wf_refs_def
  by (auto split: if_splits)

lemma wf_reduce_body:
  assumes "wf_refs s"
  shows "wf_refs (reduce_body_h oldList pf s fa)"
proof (cases "expands (file_at (h_store s) fa)")
  case True
  define s1 where "s1 = forEach_parts_h oldList fa (previous_parts_h (h_store s) pf) (parts_of (file_at (h_store s) fa)) s"
  have w: "wf_refs s1" unfolding s1_def by (rule wf_forEach_parts [OF assms])
  have "wf_refs (store_file_h fa sh (s1\<lparr>h_parentPartChange := file_parent_h s1 parts\<rparr>))" for sh parts
    by (rule wf_store_file [OF w]) (rule file_parent_h_allocated [OF w])
  then show ?thesis by (simp add: reduce_body_h_expands [OF True] s1_def)
next
  case False
  have "wf_refs (store_file_h fa True (s\<lparr>h_parentPartChange := h_parentPartChange s\<rparr>))"
    by (rule wf_store_file [OF assms]) (use assms in \<open>simp add: wf_refs_def\<close>)
  then show ?thesis by (simp add: reduce_body_h_plain [OF False])
qed

lemma same_record_write:
  "same_record f' f \<Longrightarrow> f'\<lparr>f_shown := a, f_index := b\<rparr> = f\<lparr>f_shown := a, f_index := b\<rparr>"
proof -
  assume "same_record f' f"
  then have e: "f' = f\<lparr>f_shown := f_shown f', f_index := f_index f'\<rparr>" by (simp add: same_record_def)
  show ?thesis by (subst e) simp
qed

lemma part_sim_cong:
  "rel_option (part_sim st) x y \<Longrightarrow> (\<And>a. x = Some a \<Longrightarrow> p_opened (part_at st' a) = p_opened (part_at st a) \<and>
      p_id (part_at st' a) = p_id (part_at st a)) \<Longrightarrow> rel_option (part_sim st') x y"
  by (cases x; cases y) (auto simp: part_sim_def)

lemma opened_of_h_eq:
  assumes "frame st0 A s" and "old_allocated st0 oldList"
  shows "opened_of_h (h_store s) oldList k i = opened_of (map_option (deref st0) oldList) k i"
proof (cases oldList)
  case None
  then show ?thesis by (simp add: opened_of_h_def opened_of_def)
next
  case (Some ol)
  show ?thesis
  proof (cases "map_of ol k")
    case None
    then show ?thesis using Some by (simp add: opened_of_h_def opened_of_def map_of_deref)
  next
    case (Some r)
    show ?thesis
    proof (cases r)
      case (FileRef a)
      then show ?thesis using Some \<open>oldList = Some ol\<close>
        by (simp add: opened_of_h_def opened_of_def map_of_deref)
    next
      case (PartRef a)
      then have "a < next_part st0" using assms(2) Some \<open>oldList = Some ol\<close>
        unfolding old_allocated_def by blast
      then have "part_at (h_store s) a = part_at st0 a" using assms(1) by (simp add: frame_def)
      then show ?thesis using Some PartRef \<open>oldList = Some ol\<close>
        by (simp add: opened_of_h_def opened_of_def map_of_deref)
    qed
  qed
qed

lemma rel_reset: "rel s t \<Longrightarrow> rel (reset_parent_h i s) (reset_parent i t)"
  by (simp add: rel_def reset_parent_h_def reset_parent_def)

lemma parent_at_sim:
  assumes "rel s t"
  shows "rel_option (part_sim (h_store s)) (parent_at_h s i pk) (parent_at t i pk)"
proof -
  have l: "rel_option (part_sim (h_store s)) (map_of (h_fakePartsAcc s) pk) (map_of (fakePartsAcc t) pk)"
    and p: "rel_option (part_sim (h_store s)) (h_parentPartChange s) (parentPartChange t)"
    using assms by (simp_all add: rel_def)
  show ?thesis
  proof (cases "h_parentPartChange s")
    case None
    then have "parentPartChange t = None" using p by (cases "parentPartChange t") auto
    then show ?thesis using None l by (simp add: parent_at_h_def parent_at_def)
  next
    case (Some a)
    then obtain q where q: "parentPartChange t = Some q" "part_sim (h_store s) a q"
      using p by (cases "parentPartChange t") auto
    then show ?thesis using Some l by (auto simp: parent_at_h_def parent_at_def part_sim_def)
  qed
qed

lemma file_parent_sim:
  assumes "rel s t"
  shows "rel_option (part_sim (h_store s)) (file_parent_h s parts) (file_parent t parts)"
proof -
  have l: "rel_option (part_sim (h_store s)) (map_of (h_fakePartsAcc s) (join parts)) (map_of (fakePartsAcc t) (join parts))"
    and p: "rel_option (part_sim (h_store s)) (h_parentPartChange s) (parentPartChange t)"
    using assms by (simp_all add: rel_def)
  show ?thesis
  proof (cases "h_parentPartChange s")
    case None
    then have "parentPartChange t = None" using p by (cases "parentPartChange t") auto
    then show ?thesis using None l by (simp add: file_parent_h_def file_parent_def)
  next
    case (Some a)
    then obtain q where q: "parentPartChange t = Some q" "part_sim (h_store s) a q"
      using p by (cases "parentPartChange t") auto
    then show ?thesis using Some l by (auto simp: file_parent_h_def file_parent_def part_sim_def)
  qed
qed

lemma file_shown_sim:
  assumes "rel s t"
  shows "file_shown_h s parts = file_shown t parts"
  using file_parent_sim [OF assms, of parts]
  by (cases "file_parent_h s parts"; cases "file_parent t parts")
     (auto simp: file_shown_h_def file_shown_def part_sim_def)

lemma deref_attach:
  assumes w: "wf_refs s" and st: "f_status (file_at (h_store s) fa) = f_status f"
  shows "deref (attach_status_h fa k s) (h_prev s) = attach_status f k (deref (h_store s) (h_prev s))"
proof (cases "kind (f_status f) = Conflicted")
  case False
  then show ?thesis using st by (simp add: attach_status_h_def attach_status_def)
next
  case True
  show ?thesis
  proof (cases "map_of (h_prev s) k")
    case None
    then show ?thesis using True st by (simp add: attach_status_h_def attach_status_def map_of_deref)
  next
    case (Some r)
    show ?thesis
    proof (cases r)
      case (FileRef a)
      then show ?thesis using Some True st
        by (simp add: attach_status_h_def attach_status_def map_of_deref)
    next
      case (PartRef c)
      show ?thesis
      proof (cases "p_status (part_at (h_store s) c) = None")
        case False
        then show ?thesis using Some PartRef True st
          by (simp add: attach_status_h_def attach_status_def map_of_deref del: not_None_eq)
      next
        case n: True
        define st' where "st' = (h_store s)\<lparr>part_at := (part_at (h_store s))
            (c := (part_at (h_store s) c)\<lparr>p_status := Some (f_status f)\<rparr>)\<rparr>"
        have d: "distinct (map fst (h_prev s))" using w by (simp add: wf_refs_def)
        have kc: "p_id (part_at (h_store s) c) = k"
          using w map_of_SomeD [OF Some] PartRef unfolding wf_refs_def by blast
        have other: "node_of st' r' = node_of (h_store s) r'" if "(k', r') \<in> set (h_prev s)" "k' \<noteq> k" for k' r'
        proof (cases r')
          case (FileRef a)
          then show ?thesis by (simp add: st'_def)
        next
          case (PartRef a)
          then have "p_id (part_at (h_store s) a) = k'" using w that(1) unfolding wf_refs_def by blast
          then have "a \<noteq> c" using kc that(2) by auto
          then show ?thesis using PartRef by (simp add: st'_def)
        qed
        have "deref st' (h_prev s) = AList.update k (node_of st' (PartRef c)) (deref (h_store s) (h_prev s))"
          using Some PartRef by (intro deref_write [OF d _ other]) simp_all
        then show ?thesis using Some PartRef True st n
          by (simp add: attach_status_h_def attach_status_def map_of_deref st'_def)
      qed
    qed
  qed
qed

lemma file_status_frame:
  "frame st0 A s \<Longrightarrow> f_status (file_at (h_store s) fa) = f_status (file_at st0 fa)"
  unfolding frame_def using same_record_fields(2) by blast

lemma rel_forEach_body:
  assumes fr: "frame st0 A s" and w: "wf_refs s" and r: "rel s t" and oa: "old_allocated st0 oldList"
  shows "rel (forEach_body_h oldList fa pp arr s i)
             (forEach_body (map_option (deref st0) oldList) (file_at st0 fa) pp arr t i)"
proof (cases "skips pp arr i")
  case True
  have w': "wf_refs (reset_parent_h i s)" using w by (simp add: wf_refs_def reset_parent_h_def)
  have r': "rel (reset_parent_h i s) (reset_parent i t)" by (rule rel_reset [OF r])
  have st: "f_status (file_at (h_store (reset_parent_h i s)) fa) = f_status (file_at st0 fa)"
    using file_status_frame [OF fr] by simp
  have d: "deref (attach_status_h fa (part_ident arr i) (reset_parent_h i s)) (h_prev s) =
      attach_status (file_at st0 fa) (part_ident arr i) (prev t)"
    using deref_attach [OF w' st, of "part_ident arr i"] r by (simp add: rel_def)
  have ps: "rel_option (part_sim (attach_status_h fa k (reset_parent_h i s))) x y"
    if "rel_option (part_sim (h_store s)) x y" for x y k
    by (rule part_sim_cong [OF that]) (simp add: attach_status_h_fields)
  show ?thesis
    using True d r' ps unfolding forEach_body_h_eq forEach_body_eq rel_def
    by simp
next
  case False
  define a where "a = next_part (h_store s)"
  define np where "np = new_part (map_option (deref st0) oldList) (file_at st0 fa) arr i (reset_parent i t)"
  define st' where "st' = (h_store s)\<lparr>part_at := (part_at (h_store s))(a := np), next_part := Suc a\<rparr>"
  have r': "rel (reset_parent_h i s) (reset_parent i t)" by (rule rel_reset [OF r])
  have fr': "frame st0 A (reset_parent_h i s)" by (rule frame_reset [OF fr])
  have par: "(case parent_at_h (reset_parent_h i s) i pk of None \<Rightarrow> True
              | Some p \<Rightarrow> p_opened (part_at (h_store s) p)) =
             (case parent_at (reset_parent i t) i pk of None \<Rightarrow> True | Some p \<Rightarrow> p_opened p)" for pk
    using parent_at_sim [OF r', of i pk]
    by (cases "parent_at_h (reset_parent_h i s) i pk"; cases "parent_at (reset_parent i t) i pk")
       (auto simp: part_sim_def)
  have ix: "h_index s = index t" using r by (simp add: rel_def)
  have np: "new_part_h oldList fa arr i (reset_parent_h i s) = np"
    unfolding np_def new_part_h_def new_part_def
    using opened_of_h_eq [OF fr' oa] par ix file_status_frame [OF fr]
    by (simp cong: option.case_cong)
  have old_lt: "a' < a" if "(k, PartRef a') \<in> set (h_prev s)" for k a'
    using w that unfolding wf_refs_def a_def by blast
  have "node_of st' (snd e) = node_of (h_store s) (snd e)" if "e \<in> set (h_prev s)" for e
  proof (cases "snd e")
    case (FileRef b)
    then show ?thesis by (simp add: st'_def)
  next
    case (PartRef b)
    then have "b < a" using old_lt [of "fst e" b] that by (metis prod.collapse)
    then show ?thesis using PartRef by (simp add: st'_def)
  qed
  then have dc: "deref st' (h_prev s) = deref (h_store s) (h_prev s)" by (rule deref_cong)
  have pv: "deref st' (AList.update (part_ident arr i) (PartRef a) (h_prev s)) =
      AList.update (part_ident arr i) (FakePart np) (prev t)"
    using r by (simp add: deref_update dc rel_def) (simp add: st'_def)
  have keep: "rel_option (part_sim st') x y"
    if "rel_option (part_sim (h_store s)) x y" "\<And>b. x = Some b \<Longrightarrow> b < a" for x y
    by (rule part_sim_cong [OF that(1)]) (use that(2) in \<open>auto simp: st'_def\<close>)
  have fk: "rel_option (part_sim st')
      (map_of (AList.update (part_ident arr i) a (h_fakePartsAcc s)) k)
      (map_of (AList.update (part_ident arr i) np (fakePartsAcc t)) k)" for k
  proof (cases "k = part_ident arr i")
    case True
    then show ?thesis by (simp add: update_conv' part_sim_def st'_def)
  next
    case False
    have "rel_option (part_sim st') (map_of (h_fakePartsAcc s) k) (map_of (fakePartsAcc t) k)"
      by (rule keep) (use r w in \<open>auto simp: rel_def wf_refs_def a_def\<close>)
    then show ?thesis using False by (simp add: update_conv')
  qed
  have pa: "part_sim st' a np" by (simp add: part_sim_def st'_def)
  show ?thesis
    using False pv fk pa ix
    unfolding forEach_body_h_eq forEach_body_eq rel_def np np_def [symmetric] a_def [symmetric] st'_def [symmetric]
    by simp
qed

lemma sim_forEach_body:
  assumes "sim st0 A s t" and "old_allocated st0 oldList"
  shows "sim st0 A (forEach_body_h oldList fa pp arr s i)
             (forEach_body (map_option (deref st0) oldList) (file_at st0 fa) pp arr t i)"
  using assms unfolding sim_def
  by (auto intro: frame_forEach_body wf_forEach_body rel_forEach_body)

lemma sim_fold:
  assumes "sim st0 A s t" and "old_allocated st0 oldList"
  shows "sim st0 A (fold (\<lambda>i s'. forEach_body_h oldList fa pp arr s' i) xs s)
             (fold (\<lambda>i t'. forEach_body (map_option (deref st0) oldList) (file_at st0 fa) pp arr t' i) xs t)"
  using assms(1)
proof (induction xs arbitrary: s t)
  case Nil
  then show ?case by simp
next
  case (Cons x xs)
  show ?case using Cons.IH [OF sim_forEach_body [OF Cons.prems assms(2)]] by simp
qed

lemma deref_store_file:
  assumes w: "wf_refs s"
  shows "deref ((h_store s)\<lparr>file_at := (file_at (h_store s))(fa := f')\<rparr>)
           (AList.update (f_id (file_at (h_store s) fa)) (FileRef fa) (h_prev s)) =
         AList.update (f_id (file_at (h_store s) fa)) (FileChange f') (deref (h_store s) (h_prev s))"
proof -
  define st' where "st' = (h_store s)\<lparr>file_at := (file_at (h_store s))(fa := f')\<rparr>"
  define k where "k = f_id (file_at (h_store s) fa)"
  have d: "distinct (map fst (h_prev s))" using w by (simp add: wf_refs_def)
  have other: "node_of st' r' = node_of (h_store s) r'" if "(k', r') \<in> set (h_prev s)" "k' \<noteq> k" for k' r'
  proof (cases r')
    case (PartRef a)
    then show ?thesis by (simp add: st'_def)
  next
    case (FileRef a)
    then have "f_id (file_at (h_store s) a) = k'" using w that(1) unfolding wf_refs_def by blast
    then have "a \<noteq> fa" using that(2) by (auto simp: k_def)
    then show ?thesis using FileRef by (simp add: st'_def)
  qed
  have "AList.update k v (deref st' (h_prev s)) = AList.update k v (deref (h_store s) (h_prev s))" for v
  proof (cases "map_of (h_prev s) k")
    case None
    have "node_of st' (snd e) = node_of (h_store s) (snd e)" if "e \<in> set (h_prev s)" for e
    proof -
      have "fst e \<noteq> k" using None that by (metis map_of_eq_None_iff image_eqI)
      then show ?thesis using other [of "fst e" "snd e"] that by simp
    qed
    then have "deref st' (h_prev s) = deref (h_store s) (h_prev s)" by (rule deref_cong)
    then show ?thesis by simp
  next
    case (Some r)
    have "deref st' (h_prev s) = AList.update k (node_of st' r) (deref (h_store s) (h_prev s))"
      by (rule deref_write [OF d Some other])
    then show ?thesis by simp
  qed
  then show ?thesis
    unfolding st'_def [symmetric] k_def [symmetric] by (simp add: deref_update) (simp add: st'_def)
qed

lemma rel_store_file:
  assumes w: "wf_refs s" and r: "rel s t" and sr: "same_record (file_at (h_store s) fa) f"
  shows "rel (store_file_h fa sh s) (fst (store_file f sh t)) \<and>
         file_at (h_store (store_file_h fa sh s)) fa = snd (store_file f sh t)"
proof -
  have ix: "h_index s = index t" using r by (simp add: rel_def)
  have fe: "(file_at (h_store s) fa)\<lparr>f_shown := sh, f_index := index t\<rparr> = f\<lparr>f_shown := sh, f_index := index t\<rparr>"
    by (rule same_record_write [OF sr])
  have id: "f_id (file_at (h_store s) fa) = f_id f" by (rule same_record_fields(1) [OF sr])
  have pv: "deref ((h_store s)\<lparr>file_at := (file_at (h_store s))(fa := f\<lparr>f_shown := sh, f_index := index t\<rparr>)\<rparr>)
           (AList.update (f_id f) (FileRef fa) (h_prev s)) =
         AList.update (f_id f) (FileChange (f\<lparr>f_shown := sh, f_index := index t\<rparr>)) (prev t)"
    using deref_store_file [OF w, of fa "f\<lparr>f_shown := sh, f_index := index t\<rparr>"] r
    by (simp add: id rel_def)
  have ps: "rel_option (part_sim ((h_store s)\<lparr>file_at := x\<rparr>)) a b"
    if "rel_option (part_sim (h_store s)) a b" for a b x
    by (rule part_sim_cong [OF that]) simp
  show ?thesis
    using r pv ps unfolding store_file_h_def Let_def fst_store_file snd_store_file rel_def
    by (simp add: ix fe id)
qed

lemma frame_same_record:
  "frame st0 A s \<Longrightarrow> same_record (file_at (h_store s) fa) (file_at st0 fa)"
  by (simp add: frame_def)

lemma rel_parent: 
  "rel s t \<Longrightarrow> rel_option (part_sim (h_store s)) x y \<Longrightarrow>
   rel (s\<lparr>h_parentPartChange := x\<rparr>) (t\<lparr>parentPartChange := y\<rparr>)"
  by (simp add: rel_def)

lemma wf_parent:
  "wf_refs s \<Longrightarrow> (\<And>a. x = Some a \<Longrightarrow> a < next_part (h_store s)) \<Longrightarrow>
   wf_refs (s\<lparr>h_parentPartChange := x\<rparr>)"
  by (simp add: wf_refs_def)

lemma sim_reduce_body:
  assumes sm: "sim st0 A s t" and oa: "old_allocated st0 oldList" and fa: "fa \<in> A"
    and pp: "previous_parts_h (h_store s) pf_h = previous_parts pf_v"
  shows "sim st0 A (reduce_body_h oldList pf_h s fa)
           (fst (reduce_body (map_option (deref st0) oldList) pf_v t (file_at st0 fa))) \<and>
         file_at (h_store (reduce_body_h oldList pf_h s fa)) fa =
           snd (reduce_body (map_option (deref st0) oldList) pf_v t (file_at st0 fa))"
proof -
  have fr: "frame st0 A s" and w: "wf_refs s" and r: "rel s t" using sm by (simp_all add: sim_def)
  have sr: "same_record (file_at (h_store s) fa) (file_at st0 fa)" by (rule frame_same_record [OF fr])
  have ex: "expands (file_at (h_store s) fa) = expands (file_at st0 fa)"
    and po: "parts_of (file_at (h_store s) fa) = parts_of (file_at st0 fa)"
    using same_record_fields [OF sr] by simp_all
  have f2: "frame st0 A (reduce_body_h oldList pf_h s fa)" by (rule frame_reduce_body [OF fr fa])
  have w2: "wf_refs (reduce_body_h oldList pf_h s fa)" by (rule wf_reduce_body [OF w])
  show ?thesis
  proof (cases "expands (file_at st0 fa)")
    case False
    then have n: "\<not> expands (file_at (h_store s) fa)" using ex by simp
    show ?thesis
      using rel_store_file [OF w r sr, of True] f2 w2
      by (simp add: reduce_body_h_plain [OF n] reduce_body_plain [OF False] sim_def)
  next
    case True
    then have e: "expands (file_at (h_store s) fa)" using ex by simp
    define s1 where "s1 = forEach_parts_h oldList fa (previous_parts pf_v) (parts_of (file_at st0 fa)) s"
    define t1 where "t1 = forEach_parts (map_option (deref st0) oldList) (file_at st0 fa)
        (previous_parts pf_v) (parts_of (file_at st0 fa)) t"
    have s1: "sim st0 A s1 t1"
      unfolding s1_def t1_def forEach_parts_h_def forEach_parts_def by (rule sim_fold [OF sm oa])
    then have fr1: "frame st0 A s1" and w1: "wf_refs s1" and r1: "rel s1 t1" by (simp_all add: sim_def)
    define x where "x = file_parent_h s1 (parts_of (file_at st0 fa))"
    define y where "y = file_parent t1 (parts_of (file_at st0 fa))"
    have xy: "rel_option (part_sim (h_store s1)) x y" unfolding x_def y_def by (rule file_parent_sim [OF r1])
    have w1': "wf_refs (s1\<lparr>h_parentPartChange := x\<rparr>)"
      by (rule wf_parent [OF w1]) (simp add: x_def file_parent_h_allocated [OF w1])
    have r1': "rel (s1\<lparr>h_parentPartChange := x\<rparr>) (t1\<lparr>parentPartChange := y\<rparr>)"
      by (rule rel_parent [OF r1 xy])
    have sr1: "same_record (file_at (h_store (s1\<lparr>h_parentPartChange := x\<rparr>)) fa) (file_at st0 fa)"
      using frame_same_record [OF fr1, of fa] by simp
    have sh: "file_shown_h s1 parts = file_shown t1 parts" for parts by (rule file_shown_sim [OF r1])
    show ?thesis
      using rel_store_file [OF w1' r1' sr1, of "file_shown t1 (parts_of (file_at st0 fa))"] f2 w2
      by (simp add: reduce_body_h_expands [OF e] reduce_body_expands [OF True] sim_def pp po
          s1_def [symmetric] t1_def [symmetric] x_def [symmetric] y_def [symmetric] sh)
  qed
qed

lemma file_at_forEach_body [simp]:
  "file_at (h_store (forEach_body_h oldList fa pp arr s i)) = file_at (h_store s)"
  by (simp add: forEach_body_h_eq attach_status_h_fields)

lemma file_at_forEach_parts [simp]:
  "file_at (h_store (forEach_parts_h oldList fa pp arr s)) = file_at (h_store s)"
  unfolding forEach_parts_h_def
  by (rule fold_preserves [where P = "\<lambda>s'. file_at (h_store s') = file_at (h_store s)"]) simp_all

lemma file_at_reduce_body_other:
  "a \<noteq> fa \<Longrightarrow> file_at (h_store (reduce_body_h oldList pf s fa)) a = file_at (h_store s) a"
  by (cases "expands (file_at (h_store s) fa)")
     (simp_all add: reduce_body_h_expands reduce_body_h_plain store_file_h_def Let_def)

lemma file_at_reduce_files_other:
  "a \<notin> set fas \<Longrightarrow> file_at (h_store (reduce_files_h oldList pf s fas)) a = file_at (h_store s) a"
  by (induction fas arbitrary: pf s) (simp_all add: file_at_reduce_body_other)

lemma sim_reduce_files:
  assumes "sim st0 A s t" and oa: "old_allocated st0 oldList" and "set fas \<subseteq> A"
    and "previous_parts_h (h_store s) pf_h = previous_parts pf_v"
  shows "sim st0 A (reduce_files_h oldList pf_h s fas)
           (fst (reduce_files (map_option (deref st0) oldList) pf_v t (map (file_at st0) fas))) \<and>
         (\<forall>j<length fas. fas ! j \<notin> set (drop (Suc j) fas) \<longrightarrow>
            file_at (h_store (reduce_files_h oldList pf_h s fas)) (fas ! j) =
              snd (reduce_files (map_option (deref st0) oldList) pf_v t (map (file_at st0) fas)) ! j)"
  using assms(1,3,4)
proof (induction fas arbitrary: s t pf_h pf_v)
  case Nil
  then show ?case by simp
next
  case (Cons a fas)
  let ?old = "map_option (deref st0) oldList"
  define s1 where "s1 = reduce_body_h oldList pf_h s a"
  define t1 where "t1 = fst (reduce_body ?old pf_v t (file_at st0 a))"
  define f' where "f' = snd (reduce_body ?old pf_v t (file_at st0 a))"
  have a: "a \<in> A" and sub: "set fas \<subseteq> A" using Cons.prems(2) by auto
  have b: "sim st0 A s1 t1" and c: "file_at (h_store s1) a = f'"
    using sim_reduce_body [OF Cons.prems(1) oa a Cons.prems(3)] by (simp_all add: s1_def t1_def f'_def)
  have pp: "previous_parts_h (h_store s1) (Some a) = previous_parts (Some f')"
    by (simp add: previous_parts_h_def previous_parts_def c)
  note ih = Cons.IH [OF b sub pp]
  have fs: "fst (reduce_files ?old pf_v t (map (file_at st0) (a # fas))) =
      fst (reduce_files ?old (Some f') t1 (map (file_at st0) fas))"
    and sn: "snd (reduce_files ?old pf_v t (map (file_at st0) (a # fas))) =
      f' # snd (reduce_files ?old (Some f') t1 (map (file_at st0) fas))"
    by (simp_all add: t1_def f'_def split: prod.split)
  have hd: "file_at (h_store (reduce_files_h oldList (Some a) s1 fas)) a = f'" if "a \<notin> set fas"
    using file_at_reduce_files_other [OF that, of oldList "Some a" s1] c by simp
  have "file_at (h_store (reduce_files_h oldList (Some a) s1 fas)) ((a # fas) ! j) =
        (f' # snd (reduce_files ?old (Some f') t1 (map (file_at st0) fas))) ! j"
    if "j < length (a # fas)" "(a # fas) ! j \<notin> set (drop (Suc j) (a # fas))" for j
  proof (cases j)
    case 0
    then show ?thesis using that(2) hd by simp
  next
    case (Suc i)
    then show ?thesis using that ih by simp
  qed
  then show ?case using ih unfolding fs sn by (simp add: s1_def)
qed

lemma sim_init: "sim st (set fas) (init_heap_state st) init_state"
  unfolding sim_def
  by (simp add: frame_init) (simp add: wf_refs_def rel_def init_heap_state_def init_state_def deref_def)

lemma getFileList_h_refines:
  assumes "old_allocated st oldList"
  shows "deref (snd (getFileList_h st fas oldList)) (fst (getFileList_h st fas oldList)) =
           getFileList (map (file_at st) fas) (map_option (deref st) oldList)"
    and "\<forall>j<length fas. fas ! j \<notin> set (drop (Suc j) fas) \<longrightarrow>
           file_at (snd (getFileList_h st fas oldList)) (fas ! j) =
             getFileList_files (map (file_at st) fas) (map_option (deref st) oldList) ! j"
proof -
  have pp: "previous_parts_h (h_store (init_heap_state st)) None = previous_parts None"
    by (simp add: previous_parts_h_def previous_parts_def)
  note a = sim_reduce_files [OF sim_init assms subset_refl pp, of fas]
  from a have "rel (reduce_files_h oldList None (init_heap_state st) fas)
      (fst (reduce_files (map_option (deref st) oldList) None init_state (map (file_at st) fas)))"
    by (simp add: sim_def)
  then show "deref (snd (getFileList_h st fas oldList)) (fst (getFileList_h st fas oldList)) =
           getFileList (map (file_at st) fas) (map_option (deref st) oldList)"
    by (simp add: getFileList_h_def getFileList_def Let_def rel_def)
  from a show "\<forall>j<length fas. fas ! j \<notin> set (drop (Suc j) fas) \<longrightarrow>
           file_at (snd (getFileList_h st fas oldList)) (fas ! j) =
             getFileList_files (map (file_at st) fas) (map_option (deref st) oldList) ! j"
    by (simp add: getFileList_h_def getFileList_files_def Let_def)
qed

subsection \<open>The values written\<close>

lemma index_fold:
  "index (fold (\<lambda>i s'. forEach_body oldList f pp arr s' i) xs s) = index s + length (created_ids pp arr xs)"
  by (induction xs arbitrary: s) (simp_all add: created_ids_def forEach_body_eq)

lemma index_reduce_body:
  "index (fst (reduce_body oldList pf s f)) = index s + length (stored_by pf f)"
  "Suc (f_index (snd (reduce_body oldList pf s f))) = index s + length (stored_by pf f)"
  by (cases "expands f";
      simp add: reduce_body_expands reduce_body_plain fst_store_file snd_store_file stored_by_def
        forEach_parts_def index_fold)+

lemma shown_reduce_body_plain:
  "\<not> expands f \<Longrightarrow> f_shown (snd (reduce_body oldList pf s f))"
  by (simp add: reduce_body_plain snd_store_file)

lemma records_reduce_files:
  assumes "j < length fs"
  shows "Suc (f_index (snd (reduce_files oldList pf s fs) ! j)) = index s + length (stored_ids pf (take (Suc j) fs)) \<and>
         (\<not> expands (fs ! j) \<longrightarrow> f_shown (snd (reduce_files oldList pf s fs) ! j))"
  using assms
proof (induction fs arbitrary: j pf s)
  case Nil
  then show ?case by simp
next
  case (Cons f fs)
  let ?s = "fst (reduce_body oldList pf s f)" and ?f = "snd (reduce_body oldList pf s f)"
  show ?case
  proof (cases j)
    case 0
    then show ?thesis
      unfolding snd_reduce_files_Cons
      by (simp add: index_reduce_body shown_reduce_body_plain)
  next
    case (Suc i)
    then have i: "i < length fs" using Cons.prems by simp
    have e: "stored_ids (Some ?f) (take (Suc i) fs) = stored_ids (Some f) (take (Suc i) fs)"
      by (rule stored_ids_previous_cong) simp
    show ?thesis
      using Cons.IH [OF i, of "Some ?f" ?s] Suc
      unfolding snd_reduce_files_Cons
      by (simp add: e index_reduce_body)
  qed
qed

lemma records_getFileList_files:
  assumes "j < length fs"
  shows "Suc (f_index (getFileList_files fs oldList ! j)) = length (stored_ids None (take (Suc j) fs))"
    and "\<not> expands (fs ! j) \<Longrightarrow> f_shown (getFileList_files fs oldList ! j)"
  using records_reduce_files [OF assms, of oldList None init_state]
  by (simp_all add: getFileList_files_def init_state_def)

text \<open>
  C7, amended.  Of the objects that exist before the call, \<^verbatim>\<open>getFileList\<close> writes the
  change records of its input list, and of them the fields \<^verbatim>\<open>shown\<close> and \<^verbatim>\<open>index\<close>
  only: every part made before the call and every change record that is not in the
  list is after the call what it was, and the parts of the returned table are new
  objects.  When the parts of the previous table are objects of the store, a record of
  the list is, after the call, the record that the pass on values gives at the last
  place where the list has it: its \<^verbatim>\<open>index\<close> is the number of nodes stored before
  it, and its \<^verbatim>\<open>shown\<close> is true when it does not expand; and the returned table, read
  in the store after the call, is the table of the pass on values.
\<close>

theorem getFileList_h_writes:
  "(\<forall>a. a < next_part st \<longrightarrow> part_at (snd (getFileList_h st fas oldList)) a = part_at st a) \<and>
   (\<forall>a. a \<notin> set fas \<longrightarrow> file_at (snd (getFileList_h st fas oldList)) a = file_at st a) \<and>
   (\<forall>a. same_record (file_at (snd (getFileList_h st fas oldList)) a) (file_at st a)) \<and>
   (\<forall>k a. map_of (fst (getFileList_h st fas oldList)) k = Some (PartRef a) \<longrightarrow> next_part st \<le> a) \<and>
   (old_allocated st oldList \<longrightarrow>
      (\<forall>j<length fas. fas ! j \<notin> set (drop (Suc j) fas) \<longrightarrow>
         file_at (snd (getFileList_h st fas oldList)) (fas ! j) =
           getFileList_files (map (file_at st) fas) (map_option (deref st) oldList) ! j \<and>
         Suc (f_index (file_at (snd (getFileList_h st fas oldList)) (fas ! j))) =
           length (stored_ids None (take (Suc j) (map (file_at st) fas))) \<and>
         (\<not> expands (file_at st (fas ! j)) \<longrightarrow>
            f_shown (file_at (snd (getFileList_h st fas oldList)) (fas ! j)))) \<and>
      deref (snd (getFileList_h st fas oldList)) (fst (getFileList_h st fas oldList)) =
        getFileList (map (file_at st) fas) (map_option (deref st) oldList))"
proof -
  have fr: "frame st (set fas) (reduce_files_h oldList None (init_heap_state st) fas)"
    by (rule frame_reduce_files [OF frame_init subset_refl])
  have a: "(\<forall>a. a < next_part st \<longrightarrow> part_at (snd (getFileList_h st fas oldList)) a = part_at st a) \<and>
   (\<forall>a. a \<notin> set fas \<longrightarrow> file_at (snd (getFileList_h st fas oldList)) a = file_at st a) \<and>
   (\<forall>a. same_record (file_at (snd (getFileList_h st fas oldList)) a) (file_at st a)) \<and>
   (\<forall>k a. map_of (fst (getFileList_h st fas oldList)) k = Some (PartRef a) \<longrightarrow> next_part st \<le> a)"
    using fr by (simp add: getFileList_h_def Let_def frame_def)
  have b: "file_at (snd (getFileList_h st fas oldList)) (fas ! j) =
           getFileList_files (map (file_at st) fas) (map_option (deref st) oldList) ! j \<and>
         Suc (f_index (file_at (snd (getFileList_h st fas oldList)) (fas ! j))) =
           length (stored_ids None (take (Suc j) (map (file_at st) fas))) \<and>
         (\<not> expands (file_at st (fas ! j)) \<longrightarrow>
            f_shown (file_at (snd (getFileList_h st fas oldList)) (fas ! j)))"
    if oa: "old_allocated st oldList" and j: "j < length fas" "fas ! j \<notin> set (drop (Suc j) fas)" for j
  proof -
    have e: "file_at (snd (getFileList_h st fas oldList)) (fas ! j) =
           getFileList_files (map (file_at st) fas) (map_option (deref st) oldList) ! j"
      using getFileList_h_refines(2) [OF oa, of fas] j by blast
    have l: "j < length (map (file_at st) fas)" using j(1) by simp
    show ?thesis
      unfolding e
      using records_getFileList_files [OF l, of "map_option (deref st) oldList"] j(1)
      by simp
  qed
  show ?thesis
    using a b getFileList_h_refines(1) [of st oldList fas] by blast
qed

text \<open>One record object twice in the list: it is stored twice under its identifier and
  keeps the index of the second time.\<close>

lemma same_object_twice:
  "file_at (snd (getFileList_h store_R [0, 0] None)) 0 = readme\<lparr>f_shown := True, f_index := 1\<rparr> \<and>
   fst (getFileList_h store_R [0, 0] None) = [(f_id readme, FileRef 0)]"
  by code_simp

text \<open>
  C7, as stated, fails: the change record of the input list is also the record that the
  previous table refers to; before the call it has \<^verbatim>\<open>shown = false\<close>, after the call
  \<^verbatim>\<open>shown = true\<close>.
\<close>

theorem getFileList_h_counterexample:
  "node_of store_R (FileRef 0) = FileChange readme \<and>
   node_of (snd (getFileList_h store_R [0] (Some [(f_id readme, FileRef 0)]))) (FileRef 0) =
     FileChange (readme\<lparr>f_shown := True\<rparr>) \<and>
   readme\<lparr>f_shown := True\<rparr> \<noteq> readme"
  by code_simp

text \<open>The amended property for the two records at the addresses 0 and 1 and the previous
  table with the opened page.\<close>

theorem getFileList_h_writes_witness:
  "old_allocated store_B (Some ref_old_B) \<and>
   file_at (snd (getFileList_h store_B [0, 1] (Some ref_old_B))) 0 = file_B\<lparr>f_index := 3\<rparr> \<and>
   file_at (snd (getFileList_h store_B [0, 1] (Some ref_old_B))) 1 = readme\<lparr>f_shown := True, f_index := 4\<rparr> \<and>
   file_at (snd (getFileList_h store_B [0, 1] (Some ref_old_B))) 2 = file_at store_B 2 \<and>
   part_at (snd (getFileList_h store_B [0, 1] (Some ref_old_B))) 0 = part_at store_B 0"
proof -
  have oa: "old_allocated store_B (Some ref_old_B)"
    by (simp add: old_allocated_def ref_old_B_def store_B_def)
  have fs: "map (file_at store_B) [0, 1] = [file_B, readme]" by (simp add: store_B_def)
  have ol: "map_option (deref store_B) (Some ref_old_B) =
      Some [(''doc.sketch/page1'', FakePart part_page1_open), (f_id file_B, FileChange file_B)]"
    by (simp add: deref_def ref_old_B_def store_B_def)
  have v: "getFileList_files [file_B, readme]
      (Some [(''doc.sketch/page1'', FakePart part_page1_open), (f_id file_B, FileChange file_B)]) =
      [file_B\<lparr>f_index := 3\<rparr>, readme\<lparr>f_shown := True, f_index := 4\<rparr>]"
    by code_simp
  have n: "(2::nat) \<notin> set [0, 1]" "(0::nat) < next_part store_B"
    "(0::nat) < length [0::nat, 1]" "(1::nat) < length [0::nat, 1]"
    "[0::nat, 1] ! 0 \<notin> set (drop (Suc 0) [0, 1])" "[0::nat, 1] ! 1 \<notin> set (drop (Suc 1) [0, 1])"
    by (simp_all add: store_B_def)
  show ?thesis
    using getFileList_h_writes [of store_B "[0, 1]" "Some ref_old_B"] oa n
    unfolding fs ol v
    by (metis nth_Cons_0 nth_Cons_Suc One_nat_def)
qed

end
